theory Spec2Isabelle
  imports Main "HOL-Library.AList" "HOL-Library.Log_Nat"
begin

section \<open>JavaScript numbers\<close>

text \<open>
  A JavaScript number is NaN, an infinity or a finite value. Finite values are kept as
  rationals, and the rounding to binary64 is written out where the source computes:
  \<open>fl64_div\<close> for \<open>width / height\<close> and \<open>fl64\<close> for the sums \<open>page + 1\<close> and \<open>page - 1\<close>.
\<close>

datatype jsnum = NaN | NInf | Num rat | PInf

text \<open>The relational operator \<open>a < b\<close>: false as soon as one side is NaN.\<close>

fun js_lt :: "jsnum \<Rightarrow> jsnum \<Rightarrow> bool" where
  "js_lt NaN b = False"
| "js_lt a NaN = False"
| "js_lt a NInf = False"
| "js_lt NInf b = True"
| "js_lt PInf b = False"
| "js_lt (Num x) PInf = True"
| "js_lt (Num x) (Num y) = (x < y)"

definition js_gt :: "jsnum \<Rightarrow> jsnum \<Rightarrow> bool" where
  "js_gt a b = js_lt b a"

text \<open>
  Rounding to the nearest binary64 value, ties to the even significand.
  \<open>round_half_even a b\<close> rounds the fraction \<open>a / b\<close> to an integer, \<open>binade a b\<close> is the
  exponent of the leading bit of \<open>a / b\<close>, and \<open>fl64_div a b\<close> is the quotient of two
  positive integers with 53 significant bits. \<open>fl64 x\<close> rounds a rational the same way.
  The exponent is not bounded: the quotients and sums below neither overflow nor fall
  into the subnormal range unless they are exact.
\<close>

definition round_half_even :: "int \<Rightarrow> int \<Rightarrow> int" where
  "round_half_even a b =
     (let q = a div b; r = a mod b
      in if 2 * r < b then q
         else if b < 2 * r then q + 1
         else if even q then q else q + 1)"

definition pow2 :: "int \<Rightarrow> rat" where
  "pow2 e = (if 0 \<le> e then 2 ^ nat e else 1 / 2 ^ nat (- e))"

definition binade :: "int \<Rightarrow> int \<Rightarrow> int" where
  "binade a b =
     (let e0 = bitlen a - bitlen b
      in if (if 0 \<le> e0 then b * 2 ^ nat e0 \<le> a else b \<le> a * 2 ^ nat (- e0))
         then e0 else e0 - 1)"

definition fl64_div :: "int \<Rightarrow> int \<Rightarrow> rat" where
  "fl64_div a b =
     (let e = binade a b;
          m = (if e \<le> 52 then round_half_even (a * 2 ^ nat (52 - e)) b
               else round_half_even a (b * 2 ^ nat (e - 52)))
      in of_int m * pow2 (e - 52))"

definition fl64 :: "rat \<Rightarrow> rat" where
  "fl64 x =
     (let (a, b) = quotient_of x
      in if a = 0 then 0 else if a < 0 then - fl64_div (- a) b else fl64_div a b)"

text \<open>The sum of two numbers; two finite ones give the rounded sum.\<close>

fun js_add :: "jsnum \<Rightarrow> jsnum \<Rightarrow> jsnum" where
  "js_add NaN b = NaN"
| "js_add a NaN = NaN"
| "js_add PInf NInf = NaN"
| "js_add NInf PInf = NaN"
| "js_add PInf b = PInf"
| "js_add a PInf = PInf"
| "js_add NInf b = NInf"
| "js_add a NInf = NInf"
| "js_add (Num x) (Num y) = Num (fl64 (x + y))"

fun js_neg :: "jsnum \<Rightarrow> jsnum" where
  "js_neg NaN = NaN"
| "js_neg NInf = PInf"
| "js_neg PInf = NInf"
| "js_neg (Num x) = Num (- x)"

definition js_sub :: "jsnum \<Rightarrow> jsnum \<Rightarrow> jsnum" where
  "js_sub a b = js_add a (js_neg b)"

section \<open>The DOM the component works on\<close>

text \<open>
  \<open>window.location\<close> and the URLs built from it. \<open>#getPage\<close> copies the location,
  sets the search parameter \<open>page\<close> to \<open>page.toString()\<close> and clears the hash; nothing
  else of a URL is ever changed, so the rest of the href is one string. The search
  parameter is kept as the number whose \<open>toString()\<close> it is.
\<close>

record js_url =
  href_rest :: string
  search_page :: "jsnum option"
  hash :: string

text \<open>
  An image inside a card gallery, a media container, and the gallery itself: an element
  of the component that has the class \<open>card-gallery\<close> (\<open>class_card_gallery\<close>, what
  \<open>#getUnprocessedGalleries\<close> selects) or the attribute \<open>ref="cardGallery"\<close>
  (\<open>ref_cardGallery\<close>, what \<open>#storeImageRatioSettings\<close> selects).
  \<open>g_is_html\<close> and \<open>c_is_html\<close> are the outcome of \<open>instanceof HTMLElement\<close>;
  \<open>applied\<close> says whether the marker attribute \<open>data-aspect-ratio-applied\<close> is set;
  \<open>css_ratio\<close> is the string last given to \<open>style.setProperty\<close> for the custom property
  \<open>--gallery-aspect-ratio\<close> and \<open>c_ratio\<close> the string last assigned to
  \<open>style.aspectRatio\<close> (\<open>None\<close>: never set).
\<close>

record img =
  complete :: bool
  naturalWidth :: nat
  naturalHeight :: nat

record container =
  c_is_html :: bool
  c_ratio :: "string option"

record gallery =
  gid :: nat
  g_is_html :: bool
  class_card_gallery :: bool
  ref_cardGallery :: bool
  applied :: bool
  data_product_id :: "string option"
  data_image_ratio :: "string option"
  image :: "img option"
  css_ratio :: "string option"
  containers :: "container list"

text \<open>
  A card of the grid. \<open>data_page\<close> is \<open>Number(card.dataset.page)\<close>: NaN when the
  attribute is missing or not numeric. \<open>card_galleries\<close> are the card galleries the card
  brings into the document when it is spliced in.
\<close>

record card =
  card_id :: nat
  data_page :: jsnum
  card_galleries :: "gallery list"

text \<open>
  What the section renderer returns for a page: the empty string (falsy for
  \<open>#getGridForPage\<close>), or a document in which \<open>[ref="grid"]\<close> is missing (\<open>None\<close>) or has
  the listed \<open>cards[]\<close> children.
\<close>

datatype html = EmptyString | Document "card list option"

record page_descriptor =
  page :: jsnum
  url :: js_url

datatype direction = Next | Previous

datatype error = SectionIdRequired | FetchFailed

text \<open>
  A value read from the table of aspect ratios: a string of the table, or an object (a
  function, a prototype) that the lookup finds on \<open>Object.prototype\<close>, kept as the
  string it converts to.
\<close>

datatype js_value = Str string | Obj string

text \<open>
  Work the component has handed to the browser to run later. The second frame of fixed
  mode holds the galleries and the value it captured.
\<close>

datatype frame_callback =
  ProcessNewElements
| ApplyFixed "nat list" js_value

text \<open>
  The component with the part of the browser it touches.

  The refs: \<open>ref_grid\<close> is \<open>this.refs.grid\<close>, absent (\<open>None\<close>) or present with the value
  of \<open>Number(grid.getAttribute('last-page'))\<close>; \<open>cards\<close> is \<open>this.refs.cards\<close>, \<open>None\<close>
  when it is not an array; \<open>ref_viewMorePrevious\<close> and \<open>ref_viewMoreNext\<close> say whether the
  two sentinels exist; \<open>attr_section_id\<close> is \<open>getAttribute('section-id')\<close>.

  The fields of the class: \<open>pages\<close>, \<open>resolveNextPagePromise\<close>,
  \<open>resolvePreviousPagePromise\<close> (a resolver is named by the number of the render that
  made it), \<open>imageRatioSetting\<close>, and \<open>infinityScrollObserver\<close>, which says whether the
  field holds an observer; \<open>observing\<close> says whether that observer observes the
  sentinels.

  The browser: \<open>suspended\<close> are the render calls waiting at \<open>await promise\<close>, each with
  the page descriptor it computed before; \<open>inflight\<close> the \<open>#fetchPage\<close> calls waiting
  at \<open>await getSectionHTML\<close>; \<open>idle\<close> the callbacks given to \<open>requestIdleCallback\<close>;
  \<open>frames\<close> the callbacks given to \<open>requestAnimationFrame\<close>; \<open>listeners\<close> the galleries
  whose image has a pending once-only \<open>load\<close> listener; \<open>galleries\<close> the gallery
  elements of the component in document order, with their current attributes and
  styles.

  The logs record effects for the theorems: \<open>requests\<close> every call of
  \<open>getSectionHTML\<close>, \<open>splices\<close> every \<open>grid.append\<close>/\<open>grid.prepend\<close>, \<open>pushed\<close> every
  \<open>history.pushState\<close>, \<open>rejections\<close> every promise of \<open>#fetchPage\<close> that rejected.
\<close>

record state =
  ref_grid :: "jsnum option"
  cards :: "card list option"
  ref_viewMorePrevious :: bool
  ref_viewMoreNext :: bool
  attr_section_id :: "string option"
  pages :: "(jsnum \<times> html) list"
  resolveNextPagePromise :: "nat option"
  resolvePreviousPagePromise :: "nat option"
  imageRatioSetting :: "string option"
  infinityScrollObserver :: bool
  observing :: bool
  suspended :: "(nat \<times> direction \<times> page_descriptor) list"
  next_render :: nat
  inflight :: "(direction \<times> page_descriptor) list"
  idle :: "direction list"
  frames :: "frame_callback list"
  listeners :: "nat list"
  galleries :: "gallery list"
  location :: js_url
  scrollY :: int
  requests :: "(string \<times> js_url) list"
  splices :: "(direction \<times> jsnum \<times> card list) list"
  pushed :: "js_url list"
  rejections :: "error list"

section \<open>Page descriptors and the range guard\<close>

text \<open>
  \<open>#getPage(type)\<close>: \<open>cards[0]\<close> or \<open>cards[cards.length - 1]\<close>, \<open>undefined\<close> on an
  empty array.
\<close>

definition targetCard :: "direction \<Rightarrow> card list \<Rightarrow> card option" where
  "targetCard type cs =
     (if cs = [] then None
      else if type = Previous then Some (hd cs) else Some (last cs))"

definition getPage :: "direction \<Rightarrow> state \<Rightarrow> page_descriptor option" where
  "getPage type s =
     (case cards s of
        None \<Rightarrow> None
      | Some cs \<Rightarrow>
          (case targetCard type cs of
             None \<Rightarrow> None
           | Some c \<Rightarrow>
               (let pg = (if type = Previous then js_sub (data_page c) (Num 1)
                          else js_add (data_page c) (Num 1))
                in Some \<lparr>page = pg,
                         url = (location s)\<lparr>search_page := Some pg, hash := []\<rparr>\<rparr>)))"

definition getLastPage :: "state \<Rightarrow> jsnum" where
  "getLastPage s = (case ref_grid s of None \<Rightarrow> Num 0 | Some l \<Rightarrow> l)"

definition shouldUsePage :: "page_descriptor option \<Rightarrow> state \<Rightarrow> bool" where
  "shouldUsePage pageInfo s =
     (case pageInfo of
        None \<Rightarrow> False
      | Some pg \<Rightarrow>
          (if js_gt (page pg) (getLastPage s) \<or> js_lt (page pg) (Num 1) then False
           else True))"

section \<open>Aspect ratios\<close>

subsection \<open>Division, clamping and \<open>toFixed(3)\<close>\<close>

text \<open>
  \<open>width / height\<close>: the quotient of two natural sizes, rounded to binary64 by
  \<open>fl64_div\<close>. Natural image sizes are unsigned 32-bit values, so every quotient of two
  positive ones lies in the normal range.
\<close>

definition js_div_nat :: "nat \<Rightarrow> nat \<Rightarrow> jsnum" where
  "js_div_nat w h =
     (if h = 0 then (if w = 0 then NaN else PInf)
      else if w = 0 then Num 0
      else Num (fl64_div (int w) (int h)))"

text \<open>\<open>Math.min\<close> and \<open>Math.max\<close> of two numbers: NaN as soon as one is NaN.\<close>

definition js_min :: "jsnum \<Rightarrow> jsnum \<Rightarrow> jsnum" where
  "js_min a b = (if a = NaN \<or> b = NaN then NaN else if js_lt b a then b else a)"

definition js_max :: "jsnum \<Rightarrow> jsnum \<Rightarrow> jsnum" where
  "js_max a b = (if a = NaN \<or> b = NaN then NaN else if js_lt a b then b else a)"

text \<open>
  \<open>Number.prototype.toFixed(3)\<close>, for values below \<open>10^21\<close> (above, JavaScript prints
  exponent notation; a clamped ratio is at most 10). With \<open>n\<close> the integer for which
  \<open>n / 1000\<close> is nearest to the value (the larger one of two), the digits of \<open>n\<close> are
  padded with zeros to four and the point is put before the last three.
\<close>

fun digits :: "nat \<Rightarrow> string" where
  "digits n =
     (if n < 10 then [''0123456789'' ! n]
      else digits (n div 10) @ [''0123456789'' ! (n mod 10)])"

declare digits.simps [simp del]

definition fixed3 :: "nat \<Rightarrow> string" where
  "fixed3 n =
     (let m = digits n;
          m' = (if length m \<le> 3 then replicate (4 - length m) (CHR ''0'') @ m else m);
          k = length m'
      in take (k - 3) m' @ ''.'' @ drop (k - 3) m')"

definition nearest_thousandth :: "rat \<Rightarrow> nat" where
  "nearest_thousandth x = nat \<lfloor>x * 1000 + 1 / 2\<rfloor>"

fun toFixed3 :: "jsnum \<Rightarrow> string" where
  "toFixed3 NaN = ''NaN''"
| "toFixed3 PInf = ''Infinity''"
| "toFixed3 NInf = ''-Infinity''"
| "toFixed3 (Num x) =
     (if x < 0 then ''-'' @ fixed3 (nearest_thousandth (- x))
      else fixed3 (nearest_thousandth x))"

text \<open>
  \<open>#getSafeImageAspectRatio(width, height)\<close>. The literal \<open>0.1\<close> is the binary64 value
  nearest to one tenth.
\<close>

definition getSafeImageAspectRatio :: "nat \<Rightarrow> nat \<Rightarrow> string" where
  "getSafeImageAspectRatio width height =
     (let rawRatio = js_div_nat width height
      in toFixed3 (js_max (Num (fl64_div 1 10)) (js_min (Num 10) rawRatio)))"

text \<open>
  \<open>ASPECT_RATIOS\<close> and \<open>#getAspectRatioValue\<close>. The table is an object literal, so a
  name that is not its own property is looked up on \<open>Object.prototype\<close>, whose
  properties are functions, and for \<open>__proto__\<close> the prototype itself: all truthy.
  \<open>Object_prototype\<close> lists them with the string each converts to (a native function
  as V8 prints it). A name found nowhere gives \<open>undefined\<close> and so \<open>null\<close>.
\<close>

definition ASPECT_RATIOS :: "(string \<times> string) list" where
  "ASPECT_RATIOS = [(''square'', ''1''), (''portrait'', ''0.8''), (''landscape'', ''1.778'')]"

definition Object_prototype :: "(string \<times> string) list" where
  "Object_prototype =
     [(''constructor'', ''function Object() { [native code] }''),
      (''__defineGetter__'', ''function __defineGetter__() { [native code] }''),
      (''__defineSetter__'', ''function __defineSetter__() { [native code] }''),
      (''hasOwnProperty'', ''function hasOwnProperty() { [native code] }''),
      (''__lookupGetter__'', ''function __lookupGetter__() { [native code] }''),
      (''__lookupSetter__'', ''function __lookupSetter__() { [native code] }''),
      (''isPrototypeOf'', ''function isPrototypeOf() { [native code] }''),
      (''propertyIsEnumerable'', ''function propertyIsEnumerable() { [native code] }''),
      (''toString'', ''function toString() { [native code] }''),
      (''valueOf'', ''function valueOf() { [native code] }''),
      (''__proto__'', ''[object Object]''),
      (''toLocaleString'', ''function toLocaleString() { [native code] }'')]"

definition getAspectRatioValue :: "string \<Rightarrow> js_value option" where
  "getAspectRatioValue ratioSetting =
     (case map_of ASPECT_RATIOS ratioSetting of
        None \<Rightarrow> map_option Obj (map_of Object_prototype ratioSetting)
      | Some v \<Rightarrow> if v = [] then None else Some (Str v))"

text \<open>The string a style setter makes of the value it is given.\<close>

fun to_dom_string :: "js_value \<Rightarrow> string" where
  "to_dom_string (Str v) = v"
| "to_dom_string (Obj v) = v"

subsection \<open>Applying a ratio to a gallery\<close>

definition unprocessed :: "gallery \<Rightarrow> bool" where
  "unprocessed g = (class_card_gallery g \<and> \<not> applied g)"

definition markAsProcessed :: "gallery \<Rightarrow> gallery" where
  "markAsProcessed g = (if \<not> g_is_html g then g else g\<lparr>applied := True\<rparr>)"

definition applyAspectRatioToGallery :: "gallery \<Rightarrow> string \<Rightarrow> gallery" where
  "applyAspectRatioToGallery g aspectRatio =
     (if \<not> g_is_html g then g
      else markAsProcessed
        (g\<lparr>css_ratio := Some aspectRatio,
           containers :=
             map (\<lambda>c. if c_is_html c then c\<lparr>c_ratio := Some aspectRatio\<rparr> else c)
               (containers g)\<rparr>))"

subsection \<open>Adaptive mode\<close>

text \<open>
  One pass of \<open>#fixAdaptiveAspectRatios\<close> over the unprocessed galleries, in document
  order. \<open>ratio_cache\<close> is \<open>productRatioCache\<close>; \<open>computed\<close> lists the galleries for
  which \<open>#getSafeImageAspectRatio\<close> was called; \<open>deferred\<close> lists the galleries whose
  image got a \<open>load\<close> listener.
\<close>

record adaptive_pass =
  ratio_cache :: "(string \<times> string) list"
  computed :: "nat list"
  deferred :: "nat list"

definition loadAndSetRatio :: "adaptive_pass \<Rightarrow> gallery \<Rightarrow> img \<Rightarrow> adaptive_pass \<times> gallery" where
  "loadAndSetRatio p g i =
     (if naturalWidth i = 0 \<or> naturalHeight i = 0 then (p, g)
      else
        (let imgRatio = getSafeImageAspectRatio (naturalWidth i) (naturalHeight i);
             p1 = p\<lparr>computed := computed p @ [gid g]\<rparr>;
             p2 = (case data_product_id g of
                     None \<Rightarrow> p1
                   | Some productId \<Rightarrow>
                       if productId = [] then p1
                       else p1\<lparr>ratio_cache := AList.update productId imgRatio (ratio_cache p1)\<rparr>)
         in (p2, applyAspectRatioToGallery g imgRatio)))"

definition cached_ratio :: "adaptive_pass \<Rightarrow> gallery \<Rightarrow> string option" where
  "cached_ratio p g =
     (case data_product_id g of
        None \<Rightarrow> None
      | Some productId \<Rightarrow> if productId = [] then None else map_of (ratio_cache p) productId)"

definition adaptive_visit :: "adaptive_pass \<Rightarrow> gallery \<Rightarrow> adaptive_pass \<times> gallery" where
  "adaptive_visit p g =
     (if \<not> g_is_html g then (p, g)
      else
        (case cached_ratio p g of
           Some r \<Rightarrow> (p, applyAspectRatioToGallery g r)
         | None \<Rightarrow>
             (case image g of
                None \<Rightarrow> (p, applyAspectRatioToGallery g ''1'')
              | Some i \<Rightarrow>
                  if complete i then loadAndSetRatio p g i
                  else (p\<lparr>deferred := deferred p @ [gid g]\<rparr>, g))))"

fun adaptive_loop :: "adaptive_pass \<Rightarrow> gallery list \<Rightarrow> adaptive_pass \<times> gallery list" where
  "adaptive_loop p [] = (p, [])"
| "adaptive_loop p (g # gs) =
     (if unprocessed g then
        (let v = adaptive_visit p g; r = adaptive_loop (fst v) gs
         in (fst r, snd v # snd r))
      else
        (let r = adaptive_loop p gs in (fst r, g # snd r)))"

definition fixAdaptiveAspectRatios :: "gallery list \<Rightarrow> adaptive_pass \<times> gallery list" where
  "fixAdaptiveAspectRatios gs =
     (let p0 = \<lparr>ratio_cache = [], computed = [], deferred = []\<rparr>
      in if filter unprocessed gs = [] then (p0, gs) else adaptive_loop p0 gs)"

subsection \<open>Fixed mode and the animation frame\<close>

definition applyFixedAspectRatio :: "state \<Rightarrow> state" where
  "applyFixedAspectRatio s =
     (case imageRatioSetting s of
        None \<Rightarrow> s
      | Some setting \<Rightarrow>
          if setting = [] then s
          else
            (case getAspectRatioValue setting of
               None \<Rightarrow> s
             | Some aspectRatio \<Rightarrow>
                 (let newCardGalleries = filter unprocessed (galleries s)
                  in if newCardGalleries = [] then s
                     else s\<lparr>frames := frames s @ [ApplyFixed (map gid newCardGalleries) aspectRatio]\<rparr>)))"

text \<open>
  The second frame of fixed mode: the ratio goes to the galleries captured in the
  first one.
\<close>

definition apply_fixed_batch :: "nat list \<Rightarrow> js_value \<Rightarrow> gallery list \<Rightarrow> gallery list" where
  "apply_fixed_batch ids aspectRatio gs =
     map (\<lambda>g. if gid g \<in> set ids
              then (if \<not> g_is_html g then g
                    else applyAspectRatioToGallery g (to_dom_string aspectRatio))
              else g) gs"

definition adaptive_frame :: "state \<Rightarrow> state" where
  "adaptive_frame s =
     (let r = fixAdaptiveAspectRatios (galleries s)
      in s\<lparr>galleries := snd r, listeners := listeners s @ deferred (fst r)\<rparr>)"

definition processNewElements :: "state \<Rightarrow> state" where
  "processNewElements s = s\<lparr>frames := frames s @ [ProcessNewElements]\<rparr>"

fun run_frame_callback :: "state \<Rightarrow> frame_callback \<Rightarrow> state" where
  "run_frame_callback s ProcessNewElements =
     (if imageRatioSetting s = Some ''adapt'' then adaptive_frame s
      else applyFixedAspectRatio s)"
| "run_frame_callback s (ApplyFixed ids aspectRatio) =
     s\<lparr>galleries := apply_fixed_batch ids aspectRatio (galleries s)\<rparr>"

definition animation_frame :: "state \<Rightarrow> state" where
  "animation_frame s = foldl run_frame_callback (s\<lparr>frames := []\<rparr>) (frames s)"

text \<open>
  The \<open>load\<close> event of the image of gallery \<open>i\<close>, with the natural size it loaded with:
  every pending listener on it runs \<open>loadAndSetRatio\<close> once. The listener also writes
  into the cache of the pass that made it, which nothing reads after that pass.
\<close>

definition image_loaded :: "nat \<Rightarrow> nat \<Rightarrow> nat \<Rightarrow> gallery \<Rightarrow> gallery" where
  "image_loaded i w h g =
     (if gid g = i then
        (case image g of
           None \<Rightarrow> g
         | Some im \<Rightarrow> g\<lparr>image := Some (im\<lparr>complete := True, naturalWidth := w, naturalHeight := h\<rparr>)\<rparr>)
      else g)"

definition run_listener :: "nat \<Rightarrow> gallery \<Rightarrow> gallery" where
  "run_listener i g =
     (if gid g = i then
        (case image g of
           None \<Rightarrow> g
         | Some im \<Rightarrow> snd (loadAndSetRatio \<lparr>ratio_cache = [], computed = [], deferred = []\<rparr> g im))
      else g)"

definition image_load :: "nat \<Rightarrow> nat \<Rightarrow> nat \<Rightarrow> state \<Rightarrow> state" where
  "image_load i w h s =
     (let gs = map (image_loaded i w h) (galleries s)
      in s\<lparr>galleries := (if i \<in> set (listeners s) then map (run_listener i) gs else gs),
           listeners := filter (\<lambda>j. j \<noteq> i) (listeners s)\<rparr>)"

section \<open>The page cache and the prefetch\<close>

definition getGridForPage :: "jsnum \<Rightarrow> state \<Rightarrow> card list option" where
  "getGridForPage pg s =
     (case map_of (pages s) pg of
        None \<Rightarrow> None
      | Some EmptyString \<Rightarrow> None
      | Some (Document None) \<Rightarrow> None
      | Some (Document (Some cs)) \<Rightarrow> Some cs)"

definition sectionId :: "state \<Rightarrow> error + string" where
  "sectionId s =
     (case attr_section_id s of
        None \<Rightarrow> Inl SectionIdRequired
      | Some i \<Rightarrow> if i = [] then Inl SectionIdRequired else Inr i)"

text \<open>
  \<open>#fetchPage(type)\<close> up to its \<open>await\<close>: the call of \<open>getSectionHTML\<close> is logged and the
  continuation waits in \<open>inflight\<close>. The getter \<open>sectionId\<close> is read while the arguments
  of that call are evaluated; its throw rejects the promise of \<open>#fetchPage\<close> (\<open>Inl\<close>).
\<close>

definition fetchPage :: "direction \<Rightarrow> state \<Rightarrow> error + state" where
  "fetchPage type s =
     (case getPage type s of
        None \<Rightarrow> Inr s
      | Some pg \<Rightarrow>
          if \<not> shouldUsePage (Some pg) s then Inr s
          else
            (case sectionId s of
               Inl e \<Rightarrow> Inl e
             | Inr sid \<Rightarrow>
                 Inr (s\<lparr>requests := requests s @ [(sid, url pg)],
                        inflight := inflight s @ [(type, pg)]\<rparr>)))"

text \<open>
  Every caller drops the promise of \<open>#fetchPage\<close>: a rejection is an unhandled one and
  the caller goes on.
\<close>

definition call_fetchPage :: "direction \<Rightarrow> state \<Rightarrow> state" where
  "call_fetchPage type s =
     (case fetchPage type s of
        Inl e \<Rightarrow> s\<lparr>rejections := rejections s @ [e]\<rparr>
      | Inr s' \<Rightarrow> s')"

section \<open>Rendering a page\<close>

text \<open>
  The layout is the browser's: \<open>lay cs i\<close> is the distance from the top of the document
  to child \<open>i\<close> of the grid when the grid holds the cards \<open>cs\<close>, so that
  \<open>getBoundingClientRect().top\<close> is that distance less the scroll offset.
  \<open>window.scrollTo\<close> is taken to reach the offset it is given.
\<close>

type_synonym layout = "card list \<Rightarrow> nat \<Rightarrow> int"

definition rect_top :: "layout \<Rightarrow> state \<Rightarrow> nat \<Rightarrow> int" where
  "rect_top lay s i = lay (case cards s of None \<Rightarrow> [] | Some cs \<Rightarrow> cs) i - scrollY s"

definition scrollTo :: "int \<Rightarrow> state \<Rightarrow> state" where
  "scrollTo y s = s\<lparr>scrollY := y\<rparr>"

text \<open>
  Modelled from the spec: the base class \<open>Component\<close>, which resolves \<open>this.refs\<close>, is
  not part of the sources. \<open>refs.cards\<close> is taken to be the cards currently rendered in
  the grid, in document order, so \<open>grid.append\<close> and \<open>grid.prepend\<close> extend it, and
  \<open>grid.firstElementChild\<close> is its first card.
\<close>

definition grid_children :: "state \<Rightarrow> card list" where
  "grid_children s = (case cards s of None \<Rightarrow> [] | Some cs \<Rightarrow> cs)"

text \<open>The part of \<open>#renderNextPage\<close> from \<open>grid.append\<close> on.\<close>

definition renderNextPage_splice :: "page_descriptor \<Rightarrow> card list \<Rightarrow> state \<Rightarrow> state" where
  "renderNextPage_splice nextPage nextPageItemElements s =
     (let s1 = s\<lparr>cards := Some (grid_children s @ nextPageItemElements),
                  galleries := galleries s @ concat (map card_galleries nextPageItemElements),
                  splices := splices s @ [(Next, page nextPage, nextPageItemElements)]\<rparr>;
          s2 = processNewElements s1;
          s3 = s2\<lparr>pushed := pushed s2 @ [url nextPage], location := url nextPage\<rparr>
      in s3\<lparr>idle := idle s3 @ [Next]\<rparr>)"

text \<open>The part of \<open>#renderPreviousPage\<close> from the reading of \<open>window.scrollY\<close> on.\<close>

definition renderPreviousPage_splice ::
  "layout \<Rightarrow> page_descriptor \<Rightarrow> card list \<Rightarrow> state \<Rightarrow> state" where
  "renderPreviousPage_splice lay previousPage previousPageItemElements s =
     (let scrollTop = scrollY s;
          firstElement = (grid_children s \<noteq> []);
          oldHeight = (if firstElement then rect_top lay s 0 + scrollY s else 0);
          s1 = s\<lparr>cards := Some (previousPageItemElements @ grid_children s),
                  galleries := concat (map card_galleries previousPageItemElements) @ galleries s,
                  splices := splices s @ [(Previous, page previousPage, previousPageItemElements)]\<rparr>;
          s2 = processNewElements s1;
          s3 = s2\<lparr>pushed := pushed s2 @ [url previousPage], location := url previousPage\<rparr>;
          s4 = (if firstElement then
                  (let newHeight = rect_top lay s3 (length previousPageItemElements) + scrollY s3;
                       heightDiff = newHeight - oldHeight
                   in scrollTo (scrollTop + heightDiff) s3)
                else s3)
      in s4\<lparr>idle := idle s4 @ [Previous]\<rparr>)"

text \<open>A render after its \<open>await promise\<close>: the second look into the cache.\<close>

definition render_resume :: "layout \<Rightarrow> direction \<Rightarrow> page_descriptor \<Rightarrow> state \<Rightarrow> state" where
  "render_resume lay type pg s =
     (case getGridForPage (page pg) s of
        None \<Rightarrow> s
      | Some items \<Rightarrow>
          if type = Next then renderNextPage_splice pg items s
          else renderPreviousPage_splice lay pg items s)"

definition renderNextPage :: "state \<Rightarrow> state" where
  "renderNextPage s =
     (if ref_grid s = None then s
      else
        (case getPage Next s of
           None \<Rightarrow> s
         | Some nextPage \<Rightarrow>
             if \<not> shouldUsePage (Some nextPage) s then s
             else
               (case getGridForPage (page nextPage) s of
                  None \<Rightarrow>
                    s\<lparr>resolveNextPagePromise := Some (next_render s),
                      suspended := suspended s @ [(next_render s, Next, nextPage)],
                      next_render := next_render s + 1\<rparr>
                | Some nextPageItemElements \<Rightarrow>
                    renderNextPage_splice nextPage nextPageItemElements s)))"

definition renderPreviousPage :: "layout \<Rightarrow> state \<Rightarrow> state" where
  "renderPreviousPage lay s =
     (if ref_grid s = None then s
      else
        (case getPage Previous s of
           None \<Rightarrow> s
         | Some previousPage \<Rightarrow>
             if \<not> shouldUsePage (Some previousPage) s then s
             else
               (case getGridForPage (page previousPage) s of
                  None \<Rightarrow>
                    s\<lparr>resolvePreviousPagePromise := Some (next_render s),
                      suspended := suspended s @ [(next_render s, Previous, previousPage)],
                      next_render := next_render s + 1\<rparr>
                | Some previousPageItemElements \<Rightarrow>
                    renderPreviousPage_splice lay previousPage previousPageItemElements s)))"

text \<open>
  Calling a resolver: the render that made it leaves \<open>suspended\<close> and runs on. It runs
  as a microtask, after \<open>#fetchPage\<close> has cleared the slot and returned and before
  any other event.
\<close>

definition resolve_render :: "layout \<Rightarrow> nat \<Rightarrow> state \<Rightarrow> state" where
  "resolve_render lay r s =
     (case find (\<lambda>w. fst w = r) (suspended s) of
        None \<Rightarrow> s
      | Some w \<Rightarrow>
          render_resume lay (fst (snd w)) (snd (snd w))
            (s\<lparr>suspended := filter (\<lambda>w. fst w \<noteq> r) (suspended s)\<rparr>))"

text \<open>\<open>#fetchPage\<close> after its \<open>await\<close>, with the HTML the section renderer gave.\<close>

definition fetchPage_resume ::
  "layout \<Rightarrow> direction \<Rightarrow> page_descriptor \<Rightarrow> html \<Rightarrow> state \<Rightarrow> state" where
  "fetchPage_resume lay type pg h s =
     (let s1 = s\<lparr>pages := AList.update (page pg) h (pages s)\<rparr>
      in if type = Next then
           (case resolveNextPagePromise s1 of
              None \<Rightarrow> s1\<lparr>resolveNextPagePromise := None\<rparr>
            | Some r \<Rightarrow> resolve_render lay r (s1\<lparr>resolveNextPagePromise := None\<rparr>))
         else
           (case resolvePreviousPagePromise s1 of
              None \<Rightarrow> s1\<lparr>resolvePreviousPagePromise := None\<rparr>
            | Some r \<Rightarrow> resolve_render lay r (s1\<lparr>resolvePreviousPagePromise := None\<rparr>)))"

section \<open>The life cycle and the events of the browser\<close>

definition storeImageRatioSettings :: "state \<Rightarrow> state" where
  "storeImageRatioSettings s =
     (case find ref_cardGallery (galleries s) of
        None \<Rightarrow> s
      | Some firstCardGallery \<Rightarrow> s\<lparr>imageRatioSetting := data_image_ratio firstCardGallery\<rparr>)"

definition observeViewMore :: "state \<Rightarrow> state" where
  "observeViewMore s =
     (if \<not> ref_viewMorePrevious s \<or> \<not> ref_viewMoreNext s then s
      else s\<lparr>infinityScrollObserver := True, observing := True\<rparr>)"

text \<open>
  \<open>connectedCallback\<close>, after the \<open>super\<close> call into the base class, which has resolved
  the refs.
\<close>

definition connectedCallback :: "state \<Rightarrow> state" where
  "connectedCallback s =
     observeViewMore (call_fetchPage Previous (call_fetchPage Next (storeImageRatioSettings s)))"

definition disconnectedCallback :: "state \<Rightarrow> state" where
  "disconnectedCallback s = (if infinityScrollObserver s then s\<lparr>observing := False\<rparr> else s)"

text \<open>
  The callback of the intersection observer on one batch of entries, each a target and
  its \<open>isIntersecting\<close>. An observer that observes delivers the batch; when no view
  transition runs, the loop over the entries runs at once (\<open>intersection_callback\<close>).
  When one runs, the callback waits for it, and the loop runs when the transition has
  finished, whether or not the observer has been disconnected in between
  (\<open>resumed_intersection_callback\<close>). The waiting callbacks are not recorded: a
  resumed loop is possible as soon as the component has made an observer, which
  covers every callback that can wait.
\<close>

definition intersection_entry :: "layout \<Rightarrow> state \<Rightarrow> direction \<times> bool \<Rightarrow> state" where
  "intersection_entry lay s entry =
     (if snd entry then
        (if fst entry = Previous then renderPreviousPage lay s else renderNextPage s)
      else s)"

definition intersection_callback :: "layout \<Rightarrow> (direction \<times> bool) list \<Rightarrow> state \<Rightarrow> state" where
  "intersection_callback lay entries s =
     (if observing s then foldl (intersection_entry lay) s entries else s)"

definition resumed_intersection_callback ::
  "layout \<Rightarrow> (direction \<times> bool) list \<Rightarrow> state \<Rightarrow> state" where
  "resumed_intersection_callback lay entries s =
     (if infinityScrollObserver s then foldl (intersection_entry lay) s entries else s)"

text \<open>
  What can happen to a connected component. \<open>Intersect\<close> is a batch delivered while no
  view transition runs, \<open>IntersectAfterTransition\<close> the loop of a callback that has
  waited for one. \<open>FetchResolve i\<close> and \<open>FetchReject i\<close> settle
  the \<open>i\<close>-th waiting \<open>getSectionHTML\<close>, \<open>IdleCallback i\<close> runs the \<open>i\<close>-th waiting idle
  callback; an index past the end is no event. The section renderer is a function
  from the URL asked for to the HTML it resolves with.
\<close>

datatype event =
  Connect
| Disconnect
| Intersect "(direction \<times> bool) list"
| IntersectAfterTransition "(direction \<times> bool) list"
| FetchResolve nat
| FetchReject nat
| IdleCallback nat
| AnimationFrame
| ImageLoad nat nat nat

definition remove_nth :: "nat \<Rightarrow> 'a list \<Rightarrow> 'a list" where
  "remove_nth i xs = take i xs @ drop (Suc i) xs"

fun step :: "(js_url \<Rightarrow> html) \<Rightarrow> layout \<Rightarrow> state \<Rightarrow> event \<Rightarrow> state" where
  "step server lay s Connect = connectedCallback s"
| "step server lay s Disconnect = disconnectedCallback s"
| "step server lay s (Intersect entries) = intersection_callback lay entries s"
| "step server lay s (IntersectAfterTransition entries) =
     resumed_intersection_callback lay entries s"
| "step server lay s (FetchResolve i) =
     (if i < length (inflight s) then
        fetchPage_resume lay (fst (inflight s ! i)) (snd (inflight s ! i))
          (server (url (snd (inflight s ! i))))
          (s\<lparr>inflight := remove_nth i (inflight s)\<rparr>)
      else s)"
| "step server lay s (FetchReject i) =
     (if i < length (inflight s) then
        s\<lparr>inflight := remove_nth i (inflight s), rejections := rejections s @ [FetchFailed]\<rparr>
      else s)"
| "step server lay s (IdleCallback i) =
     (if i < length (idle s) then
        call_fetchPage (idle s ! i) (s\<lparr>idle := remove_nth i (idle s)\<rparr>)
      else s)"
| "step server lay s AnimationFrame = animation_frame s"
| "step server lay s (ImageLoad i w h) = image_load i w h s"

definition run :: "(js_url \<Rightarrow> html) \<Rightarrow> layout \<Rightarrow> state \<Rightarrow> event list \<Rightarrow> state" where
  "run server lay s es = foldl (step server lay) s es"

text \<open>A component as its constructor leaves it, over a given document.\<close>

definition fresh :: "state \<Rightarrow> bool" where
  "fresh s =
     (pages s = [] \<and> resolveNextPagePromise s = None \<and> resolvePreviousPagePromise s = None
      \<and> imageRatioSetting s = None \<and> \<not> infinityScrollObserver s \<and> \<not> observing s
      \<and> suspended s = [] \<and> inflight s = []
      \<and> idle s = [] \<and> frames s = [] \<and> listeners s = [] \<and> requests s = [] \<and> splices s = []
      \<and> pushed s = [] \<and> rejections s = [])"

section \<open>Components and documents for the examples\<close>

text \<open>
  A newly constructed component over a document with the given grid, cards,
  \<open>section-id\<close> and galleries, both sentinels present, at the top of the page.
\<close>

definition new_component ::
  "jsnum option \<Rightarrow> card list option \<Rightarrow> string option \<Rightarrow> gallery list \<Rightarrow> state" where
  "new_component g cs sid gs =
     \<lparr>ref_grid = g, cards = cs, ref_viewMorePrevious = True, ref_viewMoreNext = True,
      attr_section_id = sid, pages = [], resolveNextPagePromise = None,
      resolvePreviousPagePromise = None, imageRatioSetting = None,
      infinityScrollObserver = False, observing = False,
      suspended = [], next_render = 0, inflight = [], idle = [], frames = [],
      listeners = [], galleries = gs,
      location = \<lparr>href_rest = ''/collections/all'', search_page = None, hash = []\<rparr>,
      scrollY = 0, requests = [], splices = [], pushed = [], rejections = []\<rparr>"

text \<open>A card of a page, without galleries.\<close>

definition plain_card :: "nat \<Rightarrow> jsnum \<Rightarrow> card" where
  "plain_card i p = \<lparr>card_id = i, data_page = p, card_galleries = []\<rparr>"


section \<open>Notions for the statements\<close>

text \<open>The constant of a fixed setting.\<close>

definition fixed_ratio :: "string \<Rightarrow> string" where
  "fixed_ratio setting =
     (if setting = ''square'' then ''1'' else if setting = ''portrait'' then ''0.8'' else ''1.778'')"

text \<open>
  A pending frame callback of fixed mode with the constant \<open>r\<close>: the first frame of
  \<open>#processNewElements\<close>, or a batch that carries \<open>r\<close>.
\<close>

definition fixed_callback :: "string \<Rightarrow> frame_callback \<Rightarrow> bool" where
  "fixed_callback r cb =
     (case cb of ProcessNewElements \<Rightarrow> True | ApplyFixed ids r' \<Rightarrow> r' = Str r)"


subsection \<open>The contract of the markup and the invariant of the pagination\<close>

text \<open>
  The contract of the markup: a document the section renderer returns for the URL of
  page \<open>p\<close>, when it has a grid, has at least one card there and all its cards carry
  page \<open>p\<close>.
\<close>

definition wf_html :: "jsnum \<Rightarrow> html \<Rightarrow> bool" where
  "wf_html p h =
     (case h of
        EmptyString \<Rightarrow> True
      | Document None \<Rightarrow> True
      | Document (Some cs) \<Rightarrow> cs \<noteq> [] \<and> (\<forall>c \<in> set cs. data_page c = p))"

definition contract_server :: "(js_url \<Rightarrow> html) \<Rightarrow> bool" where
  "contract_server server = (\<forall>u p. search_page u = Some p \<longrightarrow> wf_html p (server u))"

text \<open>
  The fetches of a direction that are under way: waiting for the section renderer, or
  waiting as an idle callback.
\<close>

definition pending :: "direction \<Rightarrow> state \<Rightarrow> nat" where
  "pending d s =
     length (filter (\<lambda>f. fst f = d) (inflight s)) + length (filter (\<lambda>x. x = d) (idle s))"

definition slot :: "direction \<Rightarrow> state \<Rightarrow> nat option" where
  "slot d s = (if d = Next then resolveNextPagePromise s else resolvePreviousPagePromise s)"

text \<open>
  A page number on which \<open>page + 1\<close> and \<open>page - 1\<close> are exact: an integer of magnitude
  below \<open>2^53\<close>.
\<close>

definition page_number :: "rat \<Rightarrow> bool" where
  "page_number q = (of_int \<lfloor>q\<rfloor> = q \<and> - (2 ^ 53) < q \<and> q < 2 ^ 53)"

definition safe_page :: "jsnum \<Rightarrow> bool" where
  "safe_page p = (case p of Num q \<Rightarrow> page_number q | _ \<Rightarrow> False)"

text \<open>The page next to the rendered ones, which run from page \<open>lo\<close> to page \<open>hi\<close>.\<close>

definition adjacent :: "direction \<Rightarrow> rat \<Rightarrow> rat \<Rightarrow> jsnum" where
  "adjacent d lo hi = (if d = Next then Num (hi + 1) else Num (lo - 1))"

text \<open>
  What holds of one direction between events: at most one fetch is under way, and
  then the adjacent page is not in the cache; a fetch in flight is for the adjacent
  page, which is a page number; a render whose resolver is in the slot waits for the
  adjacent page, which has no grid in the cache.
\<close>

definition coherent_dir :: "direction \<Rightarrow> rat \<Rightarrow> rat \<Rightarrow> state \<Rightarrow> bool" where
  "coherent_dir d lo hi s =
     (pending d s \<le> 1
      \<and> (pending d s = 1 \<longrightarrow> map_of (pages s) (adjacent d lo hi) = None)
      \<and> (\<forall>pg. (d, pg) \<in> set (inflight s) \<longrightarrow>
            page pg = adjacent d lo hi \<and> search_page (url pg) = Some (page pg)
            \<and> safe_page (adjacent d lo hi))
      \<and> (\<forall>r. slot d s = Some r \<longrightarrow>
            getGridForPage (adjacent d lo hi) s = None
            \<and> (\<exists>pg. find (\<lambda>w. fst w = r) (suspended s) = Some (r, d, pg)
                  \<and> page pg = adjacent d lo hi)))"

definition coherent :: "rat \<Rightarrow> rat \<Rightarrow> state \<Rightarrow> bool" where
  "coherent lo hi s =
     (lo \<le> hi \<and> page_number lo \<and> page_number hi
      \<and> cards s \<noteq> None \<and> grid_children s \<noteq> []
      \<and> data_page (hd (grid_children s)) = Num lo
      \<and> data_page (last (grid_children s)) = Num hi
      \<and> (\<forall>k h. map_of (pages s) k = Some h \<longrightarrow>
            wf_html k h \<and> (\<exists>q. k = Num q \<and> lo - 1 \<le> q \<and> q \<le> hi + 1 \<and> page_number q))
      \<and> (\<forall>w \<in> set (suspended s). fst w < next_render s)
      \<and> coherent_dir Next lo hi s \<and> coherent_dir Previous lo hi s)"



section \<open>Sums of page numbers\<close>


lemma pow2_add: "pow2 (x + y) = pow2 x * pow2 y"
proof -
  have "pow2 e = power_int 2 e" for e
    by (simp add: pow2_def power_int_def field_simps)
  then show ?thesis by (simp add: power_int_add)
qed

lemma binade_one:
  assumes "0 < n"
  shows "0 \<le> binade n 1" and "2 ^ nat (binade n 1) \<le> n"
proof -
  have b: "2 ^ nat (bitlen n - 1) \<le> n" using bitlen_bounds [OF assms] by simp
  have l1: "1 \<le> bitlen n" using assms by (simp add: bitlen_alt_def)
  have one: "bitlen 1 = 1" by (simp add: bitlen_alt_def)
  have e: "binade n 1 = bitlen n - 1"
    using b l1 by (simp add: binade_def one Let_def)
  show "0 \<le> binade n 1" using e l1 by simp
  show "2 ^ nat (binade n 1) \<le> n" using e b by simp
qed

lemma fl64_div_int:
  assumes "0 < n" "n \<le> 2 ^ 53"
  shows "fl64_div n 1 = of_int n"
proof -
  define e where "e = binade n 1"
  note b = binade_one [OF assms(1), folded e_def]
  have p: "(2::int) ^ nat e \<le> 2 ^ 53" by (rule order_trans [OF b(2) assms(2)])
  have e53: "nat e \<le> 53" by (rule power_le_imp_le_exp [OF _ p]) simp
  show ?thesis
  proof (cases "e \<le> 52")
    case True
    have m: "round_half_even (n * 2 ^ nat (52 - e)) 1 = n * 2 ^ nat (52 - e)"
      by (simp add: round_half_even_def)
    have "pow2 (52 - e) * pow2 (e - 52) = 1"
      by (simp add: pow2_add [symmetric] pow2_def)
    moreover have "pow2 (52 - e) = 2 ^ nat (52 - e)" using True by (simp add: pow2_def)
    ultimately have "(2 ^ nat (52 - e) :: rat) * pow2 (e - 52) = 1" by simp
    then have "of_int n * ((2 ^ nat (52 - e) :: rat) * pow2 (e - 52)) = of_int n" by simp
    then show ?thesis
      using True m by (simp add: fl64_div_def e_def [symmetric] Let_def mult.assoc)
  next
    case False
    then have e: "e = 53" using e53 b(1) by linarith
    then have n: "n = 2 ^ 53" using p assms(2) b(2) by simp
    have "fl64_div n 1 = of_int (round_half_even n (2 ^ nat (e - 52))) * pow2 (e - 52)"
      using False by (simp add: fl64_div_def e_def Let_def)
    also have "\<dots> = of_int (round_half_even n 2) * pow2 1" by (simp add: e)
    also have "round_half_even n 2 = 2 ^ 52" by (simp add: n round_half_even_def)
    finally show ?thesis by (simp add: n pow2_def)
  qed
qed

lemma fl64_of_int:
  assumes "\<bar>n\<bar> \<le> 2 ^ 53"
  shows "fl64 (of_int n) = of_int n"
proof -
  consider "n = 0" | "0 < n" | "n < 0" by linarith
  then show ?thesis
  proof cases
    case 1
    then show ?thesis by (simp add: fl64_def)
  next
    case 2
    then show ?thesis using assms fl64_div_int [of n] by (simp add: fl64_def)
  next
    case 3
    then show ?thesis using assms fl64_div_int [of "- n"] by (simp add: fl64_def)
  qed
qed

lemma fl64_numerals [simp]:
  "fl64 0 = 0" "fl64 1 = 1" "fl64 (- 1) = - 1"
  "(numeral k :: int) \<le> 2 ^ 53 \<Longrightarrow> fl64 (numeral k) = numeral k"
  "(numeral k :: int) \<le> 2 ^ 53 \<Longrightarrow> fl64 (- numeral k) = - numeral k"
  using fl64_of_int [of 0] fl64_of_int [of 1] fl64_of_int [of "- 1"]
    fl64_of_int [of "numeral k"] fl64_of_int [of "- numeral k"]
  by simp_all

lemma page_number_int:
  "page_number q \<longleftrightarrow> (\<exists>n. q = of_int n \<and> - (2 ^ 53) < n \<and> n < 2 ^ 53)"
proof
  assume "page_number q"
  then have e: "of_int \<lfloor>q\<rfloor> = q" and b: "- (2 ^ 53) < q" "q < 2 ^ 53"
    unfolding page_number_def by blast+
  have "(of_int (- (2 ^ 53)) :: rat) < q" "q < of_int (2 ^ 53)"
    using b by simp_all
  then have "(of_int (- (2 ^ 53)) :: rat) < of_int \<lfloor>q\<rfloor>" "(of_int \<lfloor>q\<rfloor> :: rat) < of_int (2 ^ 53)"
    by (simp_all only: e)
  then have "- (2 ^ 53) < \<lfloor>q\<rfloor>" "\<lfloor>q\<rfloor> < 2 ^ 53"
    by (simp_all only: of_int_less_iff)
  then have "q = of_int \<lfloor>q\<rfloor> \<and> - (2 ^ 53) < \<lfloor>q\<rfloor> \<and> \<lfloor>q\<rfloor> < 2 ^ 53"
    using e [symmetric] by blast
  then show "\<exists>n. q = of_int n \<and> - (2 ^ 53) < n \<and> n < 2 ^ 53" by blast
next
  assume "\<exists>n. q = of_int n \<and> - (2 ^ 53) < n \<and> n < 2 ^ 53"
  then obtain n :: int where n: "q = of_int n" "- (2 ^ 53) < n" "n < 2 ^ 53" by blast
  have "(of_int (- (2 ^ 53)) :: rat) < of_int n" "(of_int n :: rat) < of_int (2 ^ 53)"
    using n(2,3) by (simp_all only: of_int_less_iff)
  then show "page_number q" using n(1) by (simp add: page_number_def)
qed

lemma js_add_one:
  assumes "page_number q"
  shows "js_add (Num q) (Num 1) = Num (q + 1)"
proof -
  obtain n where n: "q = of_int n" "- (2 ^ 53) < n" "n < 2 ^ 53"
    using assms by (auto simp: page_number_int)
  have "fl64 (of_int (n + 1)) = of_int (n + 1)"
    using n(2,3) by (intro fl64_of_int) simp
  then show ?thesis by (simp add: n(1))
qed

lemma js_sub_one:
  assumes "page_number q"
  shows "js_sub (Num q) (Num 1) = Num (q - 1)"
proof -
  obtain n where n: "q = of_int n" "- (2 ^ 53) < n" "n < 2 ^ 53"
    using assms by (auto simp: page_number_int)
  have "fl64 (of_int (n - 1)) = of_int (n - 1)"
    using n(2,3) by (intro fl64_of_int) simp
  then show ?thesis by (simp add: n(1) js_sub_def)
qed

lemma page_number_succ:
  assumes "page_number q" "q + 1 \<le> l" "l < 2 ^ 53"
  shows "page_number (q + 1)"
proof -
  obtain n where n: "q = of_int n" "- (2 ^ 53) < n" "n < 2 ^ 53"
    using assms(1) by (auto simp: page_number_int)
  have "(of_int (n + 1) :: rat) < of_int (2 ^ 53)" using assms(2,3) n(1) by simp
  then have "n + 1 < 2 ^ 53" by (simp only: of_int_less_iff)
  then have "\<exists>m. q + 1 = of_int m \<and> - (2 ^ 53) < m \<and> m < 2 ^ 53"
    using n by (intro exI [of _ "n + 1"]) simp
  then show ?thesis by (simp only: page_number_int)
qed

lemma page_number_pred:
  assumes "page_number q" "1 \<le> q - 1"
  shows "page_number (q - 1)"
proof -
  obtain n where n: "q = of_int n" "- (2 ^ 53) < n" "n < 2 ^ 53"
    using assms(1) by (auto simp: page_number_int)
  have "(of_int 1 :: rat) \<le> of_int (n - 1)" using assms(2) n(1) by simp
  then have "1 \<le> n - 1" by (simp only: of_int_le_iff)
  then have "\<exists>m. q - 1 = of_int m \<and> - (2 ^ 53) < m \<and> m < 2 ^ 53"
    using n by (intro exI [of _ "n - 1"]) simp
  then show ?thesis by (simp only: page_number_int)
qed

section \<open>The range guard\<close>

lemma js_lt_NaN_right [simp]: "js_lt a NaN = False"
  by (cases a) auto

lemma shouldUsePage_iff:
  "getLastPage s = Num l \<Longrightarrow>
   shouldUsePage (Some pd) s \<longleftrightarrow> page pd = NaN \<or> (\<exists>q. page pd = Num q \<and> 1 \<le> q \<and> q \<le> l)"
  by (cases "page pd") (auto simp: shouldUsePage_def js_gt_def)

lemma getPage_Some_children: "getPage type s = Some pg \<Longrightarrow> grid_children s \<noteq> []"
  by (auto simp: getPage_def grid_children_def targetCard_def split: option.splits if_splits)

text \<open>
  C4. When the page of the computed descriptor is below 1 or above the last page of
  the grid, \<open>#fetchPage\<close> and the render of that direction return with the component
  unchanged: nothing is requested, nothing is spliced, no waiter is registered.
\<close>

theorem out_of_range_is_noop:
  assumes "getPage type s = Some pg"
    and "js_lt (page pg) (Num 1) \<or> js_gt (page pg) (getLastPage s)"
  shows "fetchPage type s = Inr s \<and> call_fetchPage type s = s
     \<and> (if type = Next then renderNextPage s = s else renderPreviousPage lay s = s)"
  using assms
  by (cases type)
     (auto simp: fetchPage_def call_fetchPage_def shouldUsePage_def renderNextPage_def
        renderPreviousPage_def)

theorem out_of_range_is_noop_witness:
  "getPage Next (new_component (Some (Num 3)) (Some [plain_card 1 (Num 3)]) (Some ''main'') [])
     = Some \<lparr>page = Num 4,
             url = \<lparr>href_rest = ''/collections/all'', search_page = Some (Num 4), hash = []\<rparr>\<rparr>
   \<and> js_gt (Num 4)
        (getLastPage (new_component (Some (Num 3)) (Some [plain_card 1 (Num 3)]) (Some ''main'') []))
   \<and> fetchPage Next (new_component (Some (Num 3)) (Some [plain_card 1 (Num 3)]) (Some ''main'') [])
        = Inr (new_component (Some (Num 3)) (Some [plain_card 1 (Num 3)]) (Some ''main'') [])
   \<and> renderNextPage (new_component (Some (Num 3)) (Some [plain_card 1 (Num 3)]) (Some ''main'') [])
        = new_component (Some (Num 3)) (Some [plain_card 1 (Num 3)]) (Some ''main'') []"
proof -
  let ?s = "new_component (Some (Num 3)) (Some [plain_card 1 (Num 3)]) (Some ''main'') []"
  let ?pg = "\<lparr>page = Num 4,
              url = \<lparr>href_rest = ''/collections/all'', search_page = Some (Num 4), hash = []\<rparr>\<rparr>"
  have g: "getPage Next ?s = Some ?pg"
    by (simp add: getPage_def new_component_def targetCard_def plain_card_def Let_def)
  have r: "js_gt (Num 4) (getLastPage ?s)"
    by (simp add: js_gt_def getLastPage_def new_component_def)
  have "js_lt (page ?pg) (Num 1) \<or> js_gt (page ?pg) (getLastPage ?s)"
    using r by simp
  from out_of_range_is_noop [OF g this, of undefined] g r show ?thesis by simp
qed



section \<open>Configuration errors\<close>

text \<open>
  C9, as the claim states it, fails: a component without its grid, its cards and its
  sentinels connects and renders without any error; it does nothing.
\<close>

theorem missing_refs_are_silent:
  "connectedCallback ((new_component None None (Some ''main'') [])
       \<lparr>ref_viewMorePrevious := False, ref_viewMoreNext := False\<rparr>)
     = (new_component None None (Some ''main'') [])
         \<lparr>ref_viewMorePrevious := False, ref_viewMoreNext := False\<rparr>
   \<and> renderNextPage (new_component None (Some [plain_card 1 (Num 2)]) (Some ''main'') [])
     = new_component None (Some [plain_card 1 (Num 2)]) (Some ''main'') []"
  by (simp add: connectedCallback_def observeViewMore_def call_fetchPage_def fetchPage_def
      getPage_def storeImageRatioSettings_def new_component_def renderNextPage_def)

text \<open>
  C9, amended. Only the missing (or empty) \<open>section-id\<close> throws, and only when
  \<open>#fetchPage\<close> has a page in range to request: the promise of \<open>#fetchPage\<close> rejects,
  the caller records nothing else and goes on. A missing grid makes both renders
  return at once, missing cards make \<open>#fetchPage\<close> and both renders return at once,
  and a missing sentinel makes \<open>#observeViewMore\<close> return at once. Before its request
  \<open>#fetchPage\<close> rejects in no other case.
\<close>

theorem configuration_errors:
  "(attr_section_id s = None \<or> attr_section_id s = Some [] \<longrightarrow>
      sectionId s = Inl SectionIdRequired)
   \<and> (sectionId s = Inl SectionIdRequired \<and> getPage type s = Some pg
        \<and> shouldUsePage (Some pg) s \<longrightarrow>
        fetchPage type s = Inl SectionIdRequired
        \<and> call_fetchPage type s = s\<lparr>rejections := rejections s @ [SectionIdRequired]\<rparr>)
   \<and> (ref_grid s = None \<longrightarrow> renderNextPage s = s \<and> renderPreviousPage lay s = s)
   \<and> (cards s = None \<longrightarrow>
        fetchPage type s = Inr s \<and> renderNextPage s = s \<and> renderPreviousPage lay s = s)
   \<and> (\<not> ref_viewMorePrevious s \<or> \<not> ref_viewMoreNext s \<longrightarrow> observeViewMore s = s)
   \<and> (fetchPage type s = Inl e \<longrightarrow>
        e = SectionIdRequired \<and> sectionId s = Inl SectionIdRequired
        \<and> (\<exists>p. getPage type s = Some p \<and> shouldUsePage (Some p) s))"
  by (auto simp: sectionId_def fetchPage_def call_fetchPage_def renderNextPage_def
      renderPreviousPage_def observeViewMore_def getPage_def
      split: option.splits if_splits)

theorem configuration_errors_witness:
  "attr_section_id (new_component (Some (Num 3)) (Some [plain_card 1 (Num 2)]) None []) = None
   \<and> shouldUsePage (getPage Next (new_component (Some (Num 3)) (Some [plain_card 1 (Num 2)]) None []))
        (new_component (Some (Num 3)) (Some [plain_card 1 (Num 2)]) None [])
   \<and> fetchPage Next (new_component (Some (Num 3)) (Some [plain_card 1 (Num 2)]) None [])
        = Inl SectionIdRequired
   \<and> rejections (call_fetchPage Next
        (new_component (Some (Num 3)) (Some [plain_card 1 (Num 2)]) None [])) = [SectionIdRequired]
   \<and> ref_grid (new_component None None (Some ''main'') []) = None
   \<and> cards (new_component None None (Some ''main'') []) = None
   \<and> renderNextPage (new_component None None (Some ''main'') [])
        = new_component None None (Some ''main'') []
   \<and> fetchPage Previous (new_component None None (Some ''main'') [])
        = Inr (new_component None None (Some ''main'') [])"
proof -
  let ?s = "new_component (Some (Num 3)) (Some [plain_card 1 (Num 2)]) None []"
  let ?t = "new_component None None (Some ''main'') []"
  let ?pg = "\<lparr>page = Num 3,
              url = \<lparr>href_rest = ''/collections/all'', search_page = Some (Num 3), hash = []\<rparr>\<rparr>"
  have a: "attr_section_id ?s = None" by (simp add: new_component_def)
  have g: "getPage Next ?s = Some ?pg"
    by (simp add: getPage_def new_component_def targetCard_def plain_card_def Let_def)
  have u: "shouldUsePage (Some ?pg) ?s"
    by (simp add: shouldUsePage_def getLastPage_def js_gt_def new_component_def)
  have r: "rejections ?s = []" by (simp add: new_component_def)
  have b: "ref_grid ?t = None" "cards ?t = None" by (simp_all add: new_component_def)
  from configuration_errors [of ?s Next ?pg undefined] a g u r
  have 1: "fetchPage Next ?s = Inl SectionIdRequired"
    and 2: "rejections (call_fetchPage Next ?s) = [SectionIdRequired]"
    by simp_all
  from configuration_errors [of ?t Previous undefined undefined] b
  have 3: "renderNextPage ?t = ?t" and 4: "fetchPage Previous ?t = Inr ?t"
    by simp_all
  from a g u 1 2 b 3 4 show ?thesis by simp
qed

section \<open>Prepending keeps the viewport\<close>

lemma renderPreviousPage_splice_scrollY:
  "grid_children s \<noteq> [] \<Longrightarrow>
   scrollY (renderPreviousPage_splice lay pg items s)
     = scrollY s + (lay (items @ grid_children s) (length items) - lay (grid_children s) 0)"
  by (simp add: renderPreviousPage_splice_def Let_def rect_top_def scrollTo_def
      processNewElements_def grid_children_def)

lemma renderPreviousPage_splice_splices:
  "splices (renderPreviousPage_splice lay pg items s) = splices s @ [(Previous, page pg, items)]"
  by (simp add: renderPreviousPage_splice_def Let_def rect_top_def scrollTo_def
      processNewElements_def grid_children_def)

text \<open>
  C5. A previous-direction render that prepends the cards \<open>items\<close>, straight from the
  cache or after its wait, leaves the scroll offset at the offset before plus the
  distance by which the card that was first has moved down.
\<close>

theorem prepend_keeps_viewport:
  "(splices (renderPreviousPage lay s) = splices s @ [(d, p, items)] \<longrightarrow>
      scrollY (renderPreviousPage lay s)
        = scrollY s + (lay (items @ grid_children s) (length items) - lay (grid_children s) 0))
   \<and> (grid_children s \<noteq> []
        \<and> splices (render_resume lay Previous pg s) = splices s @ [(d, p, items)] \<longrightarrow>
      scrollY (render_resume lay Previous pg s)
        = scrollY s + (lay (items @ grid_children s) (length items) - lay (grid_children s) 0))"
  by (auto simp: renderPreviousPage_def render_resume_def renderPreviousPage_splice_scrollY
        renderPreviousPage_splice_splices getPage_Some_children split: option.splits if_splits)

theorem prepend_keeps_viewport_witness:
  "splices (renderPreviousPage (\<lambda>cs i. 300 + 200 * int i)
       ((new_component (Some (Num 3)) (Some [plain_card 1 (Num 2)]) (Some ''main'') [])
          \<lparr>pages := [(Num 1, Document (Some [plain_card 5 (Num 1), plain_card 6 (Num 1)]))],
           scrollY := 120\<rparr>))
     = [(Previous, Num 1, [plain_card 5 (Num 1), plain_card 6 (Num 1)])]
   \<and> scrollY (renderPreviousPage (\<lambda>cs i. 300 + 200 * int i)
       ((new_component (Some (Num 3)) (Some [plain_card 1 (Num 2)]) (Some ''main'') [])
          \<lparr>pages := [(Num 1, Document (Some [plain_card 5 (Num 1), plain_card 6 (Num 1)]))],
           scrollY := 120\<rparr>)) = 520"
proof -
  let ?lay = "\<lambda>(cs :: card list) (i :: nat). 300 + 200 * int i"
  let ?items = "[plain_card 5 (Num 1), plain_card 6 (Num 1)]"
  let ?s = "(new_component (Some (Num 3)) (Some [plain_card 1 (Num 2)]) (Some ''main'') [])
          \<lparr>pages := [(Num 1, Document (Some ?items))], scrollY := 120\<rparr>"
  have sp: "splices (renderPreviousPage ?lay ?s) = splices ?s @ [(Previous, Num 1, ?items)]"
    by (simp add: renderPreviousPage_def getPage_def targetCard_def plain_card_def Let_def
        js_sub_def shouldUsePage_def getLastPage_def js_gt_def getGridForPage_def
        renderPreviousPage_splice_splices new_component_def)
  have "scrollY ?s = 120" "grid_children ?s = [plain_card 1 (Num 2)]" "splices ?s = []"
    by (simp_all add: new_component_def grid_children_def)
  with prepend_keeps_viewport [of ?lay ?s Previous "Num 1" ?items undefined] sp
  show ?thesis by simp
qed

section \<open>Fixed mode\<close>

lemma getAspectRatioValue_fixed:
  "setting \<in> {''square'', ''portrait'', ''landscape''} \<Longrightarrow>
   getAspectRatioValue setting = Some (Str (fixed_ratio setting))"
  by (auto simp: getAspectRatioValue_def ASPECT_RATIOS_def fixed_ratio_def)

text \<open>
  A setting that names a property of \<open>Object.prototype\<close> finds a truthy value as well;
  only a name found nowhere gives \<open>null\<close>.
\<close>

lemma inherited_setting:
  "getAspectRatioValue ''constructor'' = Some (Obj ''function Object() { [native code] }'')"
  "getAspectRatioValue ''__proto__'' = Some (Obj ''[object Object]'')"
  "getAspectRatioValue ''adapt'' = None"
  by (simp_all add: getAspectRatioValue_def ASPECT_RATIOS_def Object_prototype_def)

lemma applyAspectRatioToGallery_fields:
  "g_is_html g \<Longrightarrow>
   css_ratio (applyAspectRatioToGallery g r) = Some r
   \<and> applied (applyAspectRatioToGallery g r)
   \<and> length (containers (applyAspectRatioToGallery g r)) = length (containers g)
   \<and> (\<forall>c \<in> set (containers (applyAspectRatioToGallery g r)). c_is_html c \<longrightarrow> c_ratio c = Some r)
   \<and> image (applyAspectRatioToGallery g r) = image g
   \<and> gid (applyAspectRatioToGallery g r) = gid g"
  by (auto simp: applyAspectRatioToGallery_def markAsProcessed_def)

lemma applyAspectRatioToGallery_idem:
  "applyAspectRatioToGallery (applyAspectRatioToGallery g r) r = applyAspectRatioToGallery g r"
  by (simp add: applyAspectRatioToGallery_def markAsProcessed_def comp_def)

lemma gid_applyAspectRatioToGallery [simp]:
  "gid (applyAspectRatioToGallery g r) = gid g"
  by (simp add: applyAspectRatioToGallery_def markAsProcessed_def)

text \<open>
  Gallery \<open>i\<close>, which was \<open>g0\<close>, through one callback of fixed mode: it is still \<open>g0\<close> or it
  has the ratio; once it has the ratio it keeps it; a batch that names it gives it the
  ratio; and \<open>#processNewElements\<close> queues a batch that names it while it is unprocessed.
\<close>

lemma fixed_callback_step:
  assumes set: "imageRatioSetting t = Some setting"
      "setting \<in> {''square'', ''portrait'', ''landscape''}"
    and cb: "fixed_callback (fixed_ratio setting) cb"
    and i: "i < length (galleries t)"
    and g0: "unprocessed g0" "g_is_html g0"
    and ab: "galleries t ! i = g0
      \<or> galleries t ! i = applyAspectRatioToGallery g0 (fixed_ratio setting)"
    and fr: "\<forall>c \<in> set (frames t). fixed_callback (fixed_ratio setting) c"
  shows "imageRatioSetting (run_frame_callback t cb) = Some setting"
    and "length (galleries (run_frame_callback t cb)) = length (galleries t)"
    and "galleries (run_frame_callback t cb) ! i = g0
      \<or> galleries (run_frame_callback t cb) ! i
          = applyAspectRatioToGallery g0 (fixed_ratio setting)"
    and "galleries t ! i = applyAspectRatioToGallery g0 (fixed_ratio setting) \<Longrightarrow>
      galleries (run_frame_callback t cb) ! i
        = applyAspectRatioToGallery g0 (fixed_ratio setting)"
    and "\<And>ids. cb = ApplyFixed ids (Str (fixed_ratio setting)) \<Longrightarrow> gid g0 \<in> set ids \<Longrightarrow>
      galleries (run_frame_callback t cb) ! i
        = applyAspectRatioToGallery g0 (fixed_ratio setting)"
    and "\<forall>c \<in> set (frames (run_frame_callback t cb)). fixed_callback (fixed_ratio setting) c"
    and "cb = ProcessNewElements \<Longrightarrow> galleries t ! i = g0 \<Longrightarrow>
      \<exists>ids. ApplyFixed ids (Str (fixed_ratio setting)) \<in> set (frames (run_frame_callback t cb))
        \<and> gid g0 \<in> set ids"
    and "set (frames t) \<subseteq> set (frames (run_frame_callback t cb))"
proof -
  let ?r = "fixed_ratio setting"
  have na: "setting \<noteq> ''adapt''" "setting \<noteq> []" using set(2) by auto
  have val: "getAspectRatioValue setting = Some (Str ?r)"
    using set(2) by (rule getAspectRatioValue_fixed)
  show "imageRatioSetting (run_frame_callback t cb) = Some setting"
    using set na val by (cases cb) (simp_all add: applyFixedAspectRatio_def Let_def)
  show "length (galleries (run_frame_callback t cb)) = length (galleries t)"
    using set na val
    by (cases cb) (simp_all add: applyFixedAspectRatio_def apply_fixed_batch_def Let_def)
  have pne: "galleries (run_frame_callback t ProcessNewElements) = galleries t"
    using set na val by (simp add: applyFixedAspectRatio_def Let_def)
  have af: "galleries (run_frame_callback t (ApplyFixed ids (Str r))) ! i
      = (if gid (galleries t ! i) \<in> set ids
         then applyAspectRatioToGallery (galleries t ! i) r else galleries t ! i)" for ids r
    using i by (simp add: apply_fixed_batch_def applyAspectRatioToGallery_def)
  show "galleries (run_frame_callback t cb) ! i = g0
      \<or> galleries (run_frame_callback t cb) ! i = applyAspectRatioToGallery g0 ?r"
  proof (cases cb)
    case ProcessNewElements
    then show ?thesis using ab pne by simp
  next
    case (ApplyFixed ids r')
    then have "r' = Str ?r" using cb by (simp add: fixed_callback_def)
    then show ?thesis
      using ab ApplyFixed af [of ids ?r] by (auto simp: applyAspectRatioToGallery_idem)
  qed
  show "galleries (run_frame_callback t cb) ! i = applyAspectRatioToGallery g0 ?r"
    if "galleries t ! i = applyAspectRatioToGallery g0 ?r"
  proof (cases cb)
    case ProcessNewElements
    then show ?thesis using that pne by simp
  next
    case (ApplyFixed ids r')
    then have "r' = Str ?r" using cb by (simp add: fixed_callback_def)
    then show ?thesis
      using that ApplyFixed af [of ids ?r] by (auto simp: applyAspectRatioToGallery_idem)
  qed
  show "galleries (run_frame_callback t cb) ! i = applyAspectRatioToGallery g0 ?r"
    if "cb = ApplyFixed ids (Str ?r)" "gid g0 \<in> set ids" for ids
    using that ab af [of ids ?r] by (auto simp: applyAspectRatioToGallery_idem)
  show "\<forall>c \<in> set (frames (run_frame_callback t cb)). fixed_callback ?r c"
    using fr set na val
    by (cases cb) (auto simp: applyFixedAspectRatio_def Let_def fixed_callback_def)
  show "\<exists>ids. ApplyFixed ids (Str ?r) \<in> set (frames (run_frame_callback t cb))
      \<and> gid g0 \<in> set ids"
    if "cb = ProcessNewElements" "galleries t ! i = g0"
  proof -
    have m: "g0 \<in> set (filter unprocessed (galleries t))"
      using i g0(1) that(2) by (auto simp: in_set_conv_nth)
    then have ne: "filter unprocessed (galleries t) \<noteq> []"
      by (metis empty_iff empty_set)
    have "frames (run_frame_callback t cb)
        = frames t @ [ApplyFixed (map gid (filter unprocessed (galleries t))) (Str ?r)]"
      using that(1) set na val ne by (simp add: applyFixedAspectRatio_def Let_def)
    moreover have "gid g0 \<in> set (map gid (filter unprocessed (galleries t)))"
      using m by (simp only: set_map image_eqI)
    ultimately show ?thesis by auto
  qed
  show "set (frames t) \<subseteq> set (frames (run_frame_callback t cb))"
    using set na val
    by (cases cb) (auto simp: applyFixedAspectRatio_def Let_def)
qed


lemma fixed_callbacks_fold:
  assumes set: "setting \<in> {''square'', ''portrait'', ''landscape''}"
    and g0: "unprocessed g0" "g_is_html g0"
  shows "imageRatioSetting t = Some setting \<Longrightarrow> i < length (galleries t) \<Longrightarrow>
    galleries t ! i = g0
      \<or> galleries t ! i = applyAspectRatioToGallery g0 (fixed_ratio setting) \<Longrightarrow>
    \<forall>c \<in> set (frames t). fixed_callback (fixed_ratio setting) c \<Longrightarrow>
    \<forall>c \<in> set cbs. fixed_callback (fixed_ratio setting) c \<Longrightarrow>
    imageRatioSetting (foldl run_frame_callback t cbs) = Some setting
    \<and> i < length (galleries (foldl run_frame_callback t cbs))
    \<and> (galleries (foldl run_frame_callback t cbs) ! i = g0
        \<or> galleries (foldl run_frame_callback t cbs) ! i
            = applyAspectRatioToGallery g0 (fixed_ratio setting))
    \<and> (\<forall>c \<in> set (frames (foldl run_frame_callback t cbs)).
          fixed_callback (fixed_ratio setting) c)
    \<and> (galleries t ! i = applyAspectRatioToGallery g0 (fixed_ratio setting)
        \<or> (\<exists>ids. ApplyFixed ids (Str (fixed_ratio setting)) \<in> set cbs \<and> gid g0 \<in> set ids) \<longrightarrow>
        galleries (foldl run_frame_callback t cbs) ! i
          = applyAspectRatioToGallery g0 (fixed_ratio setting))"
proof (induction cbs arbitrary: t)
  case Nil
  then show ?case by simp
next
  case (Cons cb cbs)
  let ?r = "fixed_ratio setting"
  let ?t = "run_frame_callback t cb"
  have cb: "fixed_callback ?r cb" and rest: "\<forall>c \<in> set cbs. fixed_callback ?r c"
    using Cons.prems(5) by simp_all
  note st = fixed_callback_step [OF Cons.prems(1) set cb Cons.prems(2) g0 Cons.prems(3,4)]
  have len: "i < length (galleries ?t)" using st(2) Cons.prems(2) by simp
  note ih = Cons.IH [OF st(1) len st(3) st(6) rest]
  have "galleries (foldl run_frame_callback ?t cbs) ! i = applyAspectRatioToGallery g0 ?r"
    if h: "galleries t ! i = applyAspectRatioToGallery g0 ?r
      \<or> (\<exists>ids. ApplyFixed ids (Str ?r) \<in> set (cb # cbs) \<and> gid g0 \<in> set ids)"
  proof -
    from h consider "galleries t ! i = applyAspectRatioToGallery g0 ?r"
      | ids where "cb = ApplyFixed ids (Str ?r)" "gid g0 \<in> set ids"
      | ids where "ApplyFixed ids (Str ?r) \<in> set cbs" "gid g0 \<in> set ids"
      by auto
    then show ?thesis
    proof cases
      case 1
      then show ?thesis using st(4) ih by blast
    next
      case 2
      then show ?thesis using st(5) ih by blast
    next
      case 3
      then show ?thesis using ih by blast
    qed
  qed
  then show ?case using ih by simp
qed

text \<open>
  C7. With the setting \<open>square\<close>, \<open>portrait\<close> or \<open>landscape\<close>, and whatever callbacks of
  that setting are pending, \<open>#processNewElements\<close> and the two animation frames that
  follow give every unprocessed gallery that is an \<open>HTMLElement\<close> the constant of the
  setting, \<open>1\<close>, \<open>0.8\<close> or \<open>1.778\<close>: as its custom property and as the aspect ratio of
  each of its media containers that is an \<open>HTMLElement\<close>. The gallery is marked, and its
  image is neither read nor changed.
\<close>

theorem fixed_mode_constant:
  assumes "imageRatioSetting s = Some setting"
    and "setting \<in> {''square'', ''portrait'', ''landscape''}"
    and "\<forall>c \<in> set (frames s). fixed_callback (fixed_ratio setting) c"
    and "i < length (galleries s)"
    and "unprocessed (galleries s ! i)" and "g_is_html (galleries s ! i)"
  shows "let r = (if setting = ''square'' then ''1''
                  else if setting = ''portrait'' then ''0.8'' else ''1.778'');
             g' = galleries (animation_frame (animation_frame (processNewElements s))) ! i
         in css_ratio g' = Some r \<and> applied g'
            \<and> length (containers g') = length (containers (galleries s ! i))
            \<and> (\<forall>c \<in> set (containers g'). c_is_html c \<longrightarrow> c_ratio c = Some r)
            \<and> image g' = image (galleries s ! i)"
proof -
  let ?g = "galleries s ! i"
  let ?r = "fixed_ratio setting"
  let ?t = "foldl run_frame_callback (s\<lparr>frames := []\<rparr>) (frames s)"
  let ?t1 = "run_frame_callback ?t ProcessNewElements"
  have f1: "animation_frame (processNewElements s) = ?t1"
    by (simp add: animation_frame_def processNewElements_def)
  have t: "imageRatioSetting ?t = Some setting" "i < length (galleries ?t)"
    "galleries ?t ! i = ?g \<or> galleries ?t ! i = applyAspectRatioToGallery ?g ?r"
    "\<forall>c \<in> set (frames ?t). fixed_callback ?r c"
    using fixed_callbacks_fold [OF assms(2,5,6), of "s\<lparr>frames := []\<rparr>" i "frames s"] assms(1,3,4)
    by simp_all
  have pne: "fixed_callback ?r ProcessNewElements" by (simp add: fixed_callback_def)
  note st = fixed_callback_step [OF t(1) assms(2) pne t(2) assms(5,6) t(3,4)]
  have len: "i < length (galleries ?t1)" using st(2) t(2) by simp
  have "galleries ?t1 ! i = applyAspectRatioToGallery ?g ?r
      \<or> (\<exists>ids. ApplyFixed ids (Str ?r) \<in> set (frames ?t1) \<and> gid ?g \<in> set ids)"
    using t(3) st(4,7) by blast
  moreover have "galleries (?t1\<lparr>frames := []\<rparr>) = galleries ?t1"
    "imageRatioSetting (?t1\<lparr>frames := []\<rparr>) = Some setting" "frames (?t1\<lparr>frames := []\<rparr>) = []"
    using st(1) by simp_all
  ultimately have "galleries (foldl run_frame_callback (?t1\<lparr>frames := []\<rparr>) (frames ?t1)) ! i
      = applyAspectRatioToGallery ?g ?r"
    using fixed_callbacks_fold [OF assms(2,5,6), of "?t1\<lparr>frames := []\<rparr>" i "frames ?t1"]
      len st(3,6)
    by simp
  then have "galleries (animation_frame (animation_frame (processNewElements s))) ! i
      = applyAspectRatioToGallery ?g ?r"
    unfolding f1 by (simp add: animation_frame_def)
  then show ?thesis
    using applyAspectRatioToGallery_fields [OF assms(6), of ?r]
    by (simp add: fixed_ratio_def Let_def)
qed

theorem fixed_mode_constant_witness:
  "css_ratio (galleries (animation_frame (animation_frame (processNewElements
      ((new_component (Some (Num 3)) (Some [plain_card 1 (Num 2)]) (Some ''main'')
         [\<lparr>gid = 0, g_is_html = True, class_card_gallery = True, ref_cardGallery = True,
           applied = False, data_product_id = Some ''p1'',
           data_image_ratio = Some ''portrait'',
           image = Some \<lparr>complete = True, naturalWidth = 1600, naturalHeight = 900\<rparr>,
           css_ratio = None, containers = [\<lparr>c_is_html = True, c_ratio = None\<rparr>]\<rparr>])
        \<lparr>imageRatioSetting := Some ''portrait'', frames := [ProcessNewElements]\<rparr>)))) ! 0)
   = Some ''0.8''"
proof -
  let ?g = "\<lparr>gid = 0, g_is_html = True, class_card_gallery = True, ref_cardGallery = True,
           applied = False, data_product_id = Some ''p1'',
           data_image_ratio = Some ''portrait'',
           image = Some \<lparr>complete = True, naturalWidth = 1600, naturalHeight = 900\<rparr>,
           css_ratio = None, containers = [\<lparr>c_is_html = True, c_ratio = None\<rparr>]\<rparr>"
  let ?s = "(new_component (Some (Num 3)) (Some [plain_card 1 (Num 2)]) (Some ''main'') [?g])
        \<lparr>imageRatioSetting := Some ''portrait'', frames := [ProcessNewElements]\<rparr>"
  have a: "imageRatioSetting ?s = Some ''portrait''"
    "\<forall>c \<in> set (frames ?s). fixed_callback (fixed_ratio ''portrait'') c"
    by (simp_all add: new_component_def fixed_callback_def)
  have b: "''portrait'' \<in> {''square'', ''portrait'', ''landscape''}" by simp
  have c: "0 < length (galleries ?s)" "unprocessed (galleries ?s ! 0)" "g_is_html (galleries ?s ! 0)"
    by (simp_all add: new_component_def unprocessed_def)
  from fixed_mode_constant [OF a(1) b a(2) c] show ?thesis
    unfolding Let_def by simp
qed

section \<open>The safe aspect ratio\<close>






















text \<open>
  The rounding is that of the binary64 quotient: \<open>2001 / 2000\<close> is \<open>1.0005\<close> exactly, its
  binary64 value lies just below, and the string is \<open>"1.000"\<close>.
\<close>

lemma tie_rounds_as_binary64: "getSafeImageAspectRatio 2001 2000 = ''1.000''"
  by code_simp

section \<open>Adaptive mode\<close>












section \<open>Two renders waiting on one prefetch\<close>

lemma find_append_case:
  "find P (xs @ ys) = (case find P xs of None \<Rightarrow> find P ys | Some x \<Rightarrow> Some x)"
  by (induction xs) auto





lemma getGridForPage_cong:
  "pages s' = pages s \<Longrightarrow> getGridForPage p s' = getGridForPage p s"
  by (simp add: getGridForPage_def cong: option.case_cong)




section \<open>One fetch per direction\<close>

subsection \<open>What the operations change\<close>

lemma renderNextPage_splice_fields [simp]:
  "cards (renderNextPage_splice pg items s) = Some (grid_children s @ items)"
  "pages (renderNextPage_splice pg items s) = pages s"
  "inflight (renderNextPage_splice pg items s) = inflight s"
  "idle (renderNextPage_splice pg items s) = idle s @ [Next]"
  "suspended (renderNextPage_splice pg items s) = suspended s"
  "next_render (renderNextPage_splice pg items s) = next_render s"
  "resolveNextPagePromise (renderNextPage_splice pg items s) = resolveNextPagePromise s"
  "resolvePreviousPagePromise (renderNextPage_splice pg items s) = resolvePreviousPagePromise s"
  "splices (renderNextPage_splice pg items s) = splices s @ [(Next, page pg, items)]"
  "requests (renderNextPage_splice pg items s) = requests s"
  "ref_grid (renderNextPage_splice pg items s) = ref_grid s"
  "observing (renderNextPage_splice pg items s) = observing s"
  "attr_section_id (renderNextPage_splice pg items s) = attr_section_id s"
  by (simp_all add: renderNextPage_splice_def Let_def processNewElements_def)

lemma renderPreviousPage_splice_fields [simp]:
  "cards (renderPreviousPage_splice lay pg items s) = Some (items @ grid_children s)"
  "pages (renderPreviousPage_splice lay pg items s) = pages s"
  "inflight (renderPreviousPage_splice lay pg items s) = inflight s"
  "idle (renderPreviousPage_splice lay pg items s) = idle s @ [Previous]"
  "suspended (renderPreviousPage_splice lay pg items s) = suspended s"
  "next_render (renderPreviousPage_splice lay pg items s) = next_render s"
  "resolveNextPagePromise (renderPreviousPage_splice lay pg items s) = resolveNextPagePromise s"
  "resolvePreviousPagePromise (renderPreviousPage_splice lay pg items s)
     = resolvePreviousPagePromise s"
  "splices (renderPreviousPage_splice lay pg items s) = splices s @ [(Previous, page pg, items)]"
  "requests (renderPreviousPage_splice lay pg items s) = requests s"
  "ref_grid (renderPreviousPage_splice lay pg items s) = ref_grid s"
  "observing (renderPreviousPage_splice lay pg items s) = observing s"
  "attr_section_id (renderPreviousPage_splice lay pg items s) = attr_section_id s"
  by (simp_all add: renderPreviousPage_splice_def Let_def processNewElements_def scrollTo_def)

lemma getGridForPage_Some_iff:
  "getGridForPage p s = Some cs \<longleftrightarrow> map_of (pages s) p = Some (Document (Some cs))"
  by (auto simp: getGridForPage_def split: option.splits html.splits)

lemma getPage_numeric:
  assumes "cards s \<noteq> None" "grid_children s \<noteq> []"
    and "data_page (hd (grid_children s)) = Num lo" "data_page (last (grid_children s)) = Num hi"
    and "page_number lo" "page_number hi"
  shows "\<exists>pg. getPage d s = Some pg \<and> page pg = adjacent d lo hi
           \<and> search_page (url pg) = Some (page pg)"
  using assms js_add_one [of hi] js_sub_one [of lo]
  by (cases d)
     (auto simp: getPage_def grid_children_def targetCard_def adjacent_def Let_def)

lemma getGridForPage_update [simp]:
  "getGridForPage p (suspended_update f1 s) = getGridForPage p s"
  "getGridForPage p (next_render_update f2 s) = getGridForPage p s"
  "getGridForPage p (resolveNextPagePromise_update f3 s) = getGridForPage p s"
  "getGridForPage p (resolvePreviousPagePromise_update f4 s) = getGridForPage p s"
  "getGridForPage p (inflight_update f5 s) = getGridForPage p s"
  "getGridForPage p (idle_update f6 s) = getGridForPage p s"
  "getGridForPage p (requests_update f7 s) = getGridForPage p s"
  "getGridForPage p (rejections_update f8 s) = getGridForPage p s"
  by (simp_all add: getGridForPage_def)

lemma pending_update [simp]:
  "pending d (suspended_update f1 s) = pending d s"
  "pending d (next_render_update f2 s) = pending d s"
  "pending d (resolveNextPagePromise_update f3 s) = pending d s"
  "pending d (resolvePreviousPagePromise_update f4 s) = pending d s"
  "pending d (pages_update f5 s) = pending d s"
  "pending d (requests_update f7 s) = pending d s"
  "pending d (rejections_update f8 s) = pending d s"
  by (simp_all add: pending_def)

lemma slot_update [simp]:
  "slot d (suspended_update f1 s) = slot d s"
  "slot d (next_render_update f2 s) = slot d s"
  "slot d (pages_update f5 s) = slot d s"
  "slot d (inflight_update f6 s) = slot d s"
  "slot d (idle_update f7 s) = slot d s"
  "slot d (requests_update f8 s) = slot d s"
  "slot d (rejections_update f9 s) = slot d s"
  by (simp_all add: slot_def)

lemma grid_children_update [simp]:
  "grid_children (suspended_update f1 s) = grid_children s"
  "grid_children (next_render_update f2 s) = grid_children s"
  "grid_children (resolveNextPagePromise_update f3 s) = grid_children s"
  "grid_children (resolvePreviousPagePromise_update f4 s) = grid_children s"
  "grid_children (pages_update f5 s) = grid_children s"
  "grid_children (inflight_update f6 s) = grid_children s"
  "grid_children (idle_update f7 s) = grid_children s"
  "grid_children (requests_update f8 s) = grid_children s"
  "grid_children (rejections_update f9 s) = grid_children s"
  by (simp_all add: grid_children_def)

lemma adjacent_simps [simp]:
  "adjacent Next lo hi = Num (hi + 1)" "adjacent Previous lo hi = Num (lo - 1)"
  by (simp_all add: adjacent_def)

lemma coherent_keys:
  "coherent lo hi s \<Longrightarrow> map_of (pages s) k = Some h \<Longrightarrow>
   wf_html k h \<and> (\<exists>q. k = Num q \<and> lo - 1 \<le> q \<and> q \<le> hi + 1 \<and> page_number q)"
  unfolding coherent_def by blast

lemma coherent_cong:
  assumes "cards s' = cards s" "pages s' = pages s" "inflight s' = inflight s"
    and "idle s' = idle s" "suspended s' = suspended s" "next_render s' = next_render s"
    and "resolveNextPagePromise s' = resolveNextPagePromise s"
    and "resolvePreviousPagePromise s' = resolvePreviousPagePromise s"
  shows "coherent lo hi s' = coherent lo hi s"
proof -
  have "coherent_dir d lo hi s' = coherent_dir d lo hi s" for d
    using assms
    by (simp add: coherent_dir_def pending_def slot_def getGridForPage_cong [of s' s])
  then show ?thesis
    using assms by (simp add: coherent_def grid_children_def)
qed

lemma pending_zero_no_inflight: "pending d s = 0 \<Longrightarrow> (d, pg) \<notin> set (inflight s)"
  by (auto simp: pending_def filter_empty_conv)

lemma coherent_cached_idle:
  assumes "coherent_dir d lo hi s" "getGridForPage (adjacent d lo hi) s = Some items"
  shows "pending d s = 0" "slot d s = None"
proof -
  have "map_of (pages s) (adjacent d lo hi) \<noteq> None"
    using assms(2) by (simp add: getGridForPage_Some_iff)
  then have "pending d s \<noteq> 1" using assms(1) by (auto simp: coherent_dir_def)
  moreover have "pending d s \<le> 1" using assms(1) by (simp add: coherent_dir_def)
  ultimately show "pending d s = 0" by simp
  show "slot d s = None"
    using assms by (cases "slot d s") (auto simp: coherent_dir_def)
qed

lemma coherent_splice_next:
  assumes coh: "coherent lo hi s" and g: "getGridForPage (Num (hi + 1)) s = Some items"
  shows "coherent lo (hi + 1) (renderNextPage_splice pg items s)"
proof -
  let ?s' = "renderNextPage_splice pg items s"
  have cn: "coherent_dir Next lo hi s" and cp: "coherent_dir Previous lo hi s"
    using coh by (simp_all add: coherent_def)
  have m: "map_of (pages s) (Num (hi + 1)) = Some (Document (Some items))"
    using g by (simp add: getGridForPage_Some_iff)
  note keys = coherent_keys [OF coh]
  have pn: "page_number lo" "page_number hi" using coh by (simp_all add: coherent_def)
  from keys [OF m] have items: "items \<noteq> []" "\<forall>c \<in> set items. data_page c = Num (hi + 1)"
    by (simp_all add: wf_html_def)
  have p0: "pending Next s = 0" and sl: "slot Next s = None"
    using coherent_cached_idle [OF cn] g by simp_all
  have gc: "grid_children ?s' = grid_children s @ items" by (simp add: grid_children_def)
  have ne: "grid_children s \<noteq> []" using coh by (simp add: coherent_def)
  have 1: "lo \<le> hi + 1" using coh by (simp add: coherent_def)
  have 2: "data_page (hd (grid_children ?s')) = Num lo"
    using coh ne by (simp add: gc coherent_def)
  have 3: "data_page (last (grid_children ?s')) = Num (hi + 1)"
    using items by (simp add: gc)
  from keys [OF m] have pn1: "page_number (hi + 1)" by simp
  have 4: "\<forall>k h. map_of (pages ?s') k = Some h \<longrightarrow>
      wf_html k h \<and> (\<exists>q. k = Num q \<and> lo - 1 \<le> q \<and> q \<le> hi + 1 + 1 \<and> page_number q)"
    using keys by fastforce
  have 5: "\<forall>w \<in> set (suspended ?s'). fst w < next_render ?s'"
    using coh by (simp add: coherent_def)
  have nk: "map_of (pages s) (Num (hi + 1 + 1)) = None"
  proof (cases "map_of (pages s) (Num (hi + 1 + 1))")
    case (Some h)
    from keys [OF this] show ?thesis by simp
  qed simp
  have 6: "coherent_dir Next lo (hi + 1) ?s'"
    using p0 sl pending_zero_no_inflight [OF p0] nk
    by (simp add: coherent_dir_def pending_def slot_def)
  have 7: "coherent_dir Previous lo (hi + 1) ?s'"
    using cp
    by (auto simp: coherent_dir_def pending_def slot_def
        getGridForPage_cong [of ?s' s])
  show ?thesis
    using 1 2 3 4 5 6 7 items pn pn1 by (simp add: coherent_def gc)
qed

lemma coherent_splice_previous:
  assumes coh: "coherent lo hi s" and g: "getGridForPage (Num (lo - 1)) s = Some items"
  shows "coherent (lo - 1) hi (renderPreviousPage_splice lay pg items s)"
proof -
  let ?s' = "renderPreviousPage_splice lay pg items s"
  have cn: "coherent_dir Next lo hi s" and cp: "coherent_dir Previous lo hi s"
    using coh by (simp_all add: coherent_def)
  have m: "map_of (pages s) (Num (lo - 1)) = Some (Document (Some items))"
    using g by (simp add: getGridForPage_Some_iff)
  note keys = coherent_keys [OF coh]
  have pn: "page_number lo" "page_number hi" using coh by (simp_all add: coherent_def)
  from keys [OF m] have items: "items \<noteq> []" "\<forall>c \<in> set items. data_page c = Num (lo - 1)"
    by (simp_all add: wf_html_def)
  have p0: "pending Previous s = 0" and sl: "slot Previous s = None"
    using coherent_cached_idle [OF cp] g by simp_all
  have gc: "grid_children ?s' = items @ grid_children s" by (simp add: grid_children_def)
  have ne: "grid_children s \<noteq> []" using coh by (simp add: coherent_def)
  have 1: "lo - 1 \<le> hi" using coh by (simp add: coherent_def)
  have 2: "data_page (hd (grid_children ?s')) = Num (lo - 1)"
    using items by (simp add: gc)
  have 3: "data_page (last (grid_children ?s')) = Num hi"
    using coh ne by (simp add: gc coherent_def)
  from keys [OF m] have pn1: "page_number (lo - 1)" by simp
  have 4: "\<forall>k h. map_of (pages ?s') k = Some h \<longrightarrow>
      wf_html k h \<and> (\<exists>q. k = Num q \<and> lo - 1 - 1 \<le> q \<and> q \<le> hi + 1 \<and> page_number q)"
    using keys by fastforce
  have 5: "\<forall>w \<in> set (suspended ?s'). fst w < next_render ?s'"
    using coh by (simp add: coherent_def)
  have nk: "map_of (pages s) (Num (lo - 1 - 1)) = None"
  proof (cases "map_of (pages s) (Num (lo - 1 - 1))")
    case (Some h)
    from keys [OF this] show ?thesis by simp
  qed simp
  have 6: "coherent_dir Previous (lo - 1) hi ?s'"
    using p0 sl pending_zero_no_inflight [OF p0] nk
    by (simp add: coherent_dir_def pending_def slot_def)
  have 7: "coherent_dir Next (lo - 1) hi ?s'"
    using cn
    by (auto simp: coherent_dir_def pending_def slot_def
        getGridForPage_cong [of ?s' s])
  show ?thesis
    using 1 2 3 4 5 6 7 items pn pn1 by (simp add: coherent_def gc)
qed

lemma find_new_waiter:
  assumes "\<forall>w \<in> set ws. fst w < (n :: nat)"
  shows "find (\<lambda>w. fst w = n) (ws @ [(n, a)]) = Some (n, a)"
proof -
  have "fst w \<noteq> n" if "w \<in> set ws" for w
    using assms that by fastforce
  then have "find (\<lambda>w. fst w = n) ws = None" by (force simp: find_None_iff)
  then show ?thesis by (simp add: find_append_case)
qed

lemma find_old_waiter:
  "find P ws = Some w \<Longrightarrow> find P (ws @ xs) = Some w"
  by (simp add: find_append_case)

lemma coherent_wait:
  assumes coh: "coherent lo hi s" and pg: "page pg = adjacent d lo hi"
    and g: "getGridForPage (adjacent d lo hi) s = None"
  shows "coherent lo hi
     (if d = Next then
        s\<lparr>resolveNextPagePromise := Some (next_render s),
          suspended := suspended s @ [(next_render s, Next, pg)],
          next_render := next_render s + 1\<rparr>
      else
        s\<lparr>resolvePreviousPagePromise := Some (next_render s),
          suspended := suspended s @ [(next_render s, Previous, pg)],
          next_render := next_render s + 1\<rparr>)"
proof -
  have ids: "\<forall>w \<in> set (suspended s). fst w < next_render s"
    using coh by (simp add: coherent_def)
  have cn: "coherent_dir Next lo hi s" and cp: "coherent_dir Previous lo hi s"
    using coh by (simp_all add: coherent_def)
  show ?thesis
  proof (cases d)
    case Next
    let ?s' = "s\<lparr>resolveNextPagePromise := Some (next_render s),
          suspended := suspended s @ [(next_render s, Next, pg)],
          next_render := next_render s + 1\<rparr>"
    have 1: "coherent_dir Next lo hi ?s'"
      using cn pg g Next find_new_waiter [OF ids, of "(Next, pg)"]
      by (simp add: coherent_dir_def pending_def slot_def)
    have 2: "coherent_dir Previous lo hi ?s'"
      using cp by (auto simp: coherent_dir_def pending_def slot_def find_old_waiter)
    have 3: "\<forall>w \<in> set (suspended ?s'). fst w < next_render ?s'"
      using ids by auto
    show ?thesis
      using coh 1 2 3 Next by (simp add: coherent_def)
  next
    case Previous
    let ?s' = "s\<lparr>resolvePreviousPagePromise := Some (next_render s),
          suspended := suspended s @ [(next_render s, Previous, pg)],
          next_render := next_render s + 1\<rparr>"
    have 1: "coherent_dir Previous lo hi ?s'"
      using cp pg g Previous find_new_waiter [OF ids, of "(Previous, pg)"]
      by (simp add: coherent_dir_def pending_def slot_def)
    have 2: "coherent_dir Next lo hi ?s'"
      using cn by (auto simp: coherent_dir_def pending_def slot_def find_old_waiter)
    have 3: "\<forall>w \<in> set (suspended ?s'). fst w < next_render ?s'"
      using ids by auto
    show ?thesis
      using coh 1 2 3 Previous by (simp add: coherent_def)
  qed
qed

lemma coherent_getPage:
  assumes "coherent lo hi s"
  shows "\<exists>pg. getPage d s = Some pg \<and> page pg = adjacent d lo hi
           \<and> search_page (url pg) = Some (page pg)"
  using assms getPage_numeric [of s lo hi d] by (simp add: coherent_def)

lemma coherent_renderNextPage:
  assumes coh: "coherent lo hi s"
  shows "\<exists>lo' hi'. coherent lo' hi' (renderNextPage s)"
proof -
  obtain pg where pg: "getPage Next s = Some pg" "page pg = Num (hi + 1)"
    using coherent_getPage [OF coh, of Next] by auto
  show ?thesis
  proof (cases "ref_grid s = None \<or> \<not> shouldUsePage (Some pg) s")
    case True
    then have "renderNextPage s = s" using pg by (auto simp: renderNextPage_def)
    then show ?thesis using coh by auto
  next
    case False
    show ?thesis
    proof (cases "getGridForPage (Num (hi + 1)) s")
      case None
      then have "renderNextPage s = s\<lparr>resolveNextPagePromise := Some (next_render s),
          suspended := suspended s @ [(next_render s, Next, pg)],
          next_render := next_render s + 1\<rparr>"
        using False pg by (auto simp: renderNextPage_def)
      then show ?thesis
        using coherent_wait [OF coh, of pg Next] pg None by auto
    next
      case (Some items)
      then have "renderNextPage s = renderNextPage_splice pg items s"
        using False pg by (auto simp: renderNextPage_def)
      then show ?thesis using coherent_splice_next [OF coh Some, of pg] by auto
    qed
  qed
qed

lemma coherent_renderPreviousPage:
  assumes coh: "coherent lo hi s"
  shows "\<exists>lo' hi'. coherent lo' hi' (renderPreviousPage lay s)"
proof -
  obtain pg where pg: "getPage Previous s = Some pg" "page pg = Num (lo - 1)"
    using coherent_getPage [OF coh, of Previous] by auto
  show ?thesis
  proof (cases "ref_grid s = None \<or> \<not> shouldUsePage (Some pg) s")
    case True
    then have "renderPreviousPage lay s = s" using pg by (auto simp: renderPreviousPage_def)
    then show ?thesis using coh by auto
  next
    case False
    show ?thesis
    proof (cases "getGridForPage (Num (lo - 1)) s")
      case None
      then have "renderPreviousPage lay s = s\<lparr>resolvePreviousPagePromise := Some (next_render s),
          suspended := suspended s @ [(next_render s, Previous, pg)],
          next_render := next_render s + 1\<rparr>"
        using False pg by (auto simp: renderPreviousPage_def)
      then show ?thesis
        using coherent_wait [OF coh, of pg Previous] pg None by auto
    next
      case (Some items)
      then have "renderPreviousPage lay s = renderPreviousPage_splice lay pg items s"
        using False pg by (auto simp: renderPreviousPage_def)
      then show ?thesis using coherent_splice_previous [OF coh Some, of lay pg] by auto
    qed
  qed
qed

lemma coherent_intersection:
  assumes "\<exists>lo hi. coherent lo hi s"
  shows "\<exists>lo hi. coherent lo hi (intersection_callback lay entries s)
    \<and> (\<exists>lo hi. coherent lo hi (resumed_intersection_callback lay entries s))"
proof -
  have "\<exists>lo hi. coherent lo hi (foldl (intersection_entry lay) s entries)"
    using assms
  proof (induction entries arbitrary: s)
    case Nil
    then show ?case by simp
  next
    case (Cons e es)
    have "\<exists>lo hi. coherent lo hi (intersection_entry lay s e)"
      using Cons.prems coherent_renderNextPage coherent_renderPreviousPage
      by (auto simp: intersection_entry_def)
    then show ?case using Cons.IH by simp
  qed
  then show ?thesis
    using assms by (simp add: intersection_callback_def resumed_intersection_callback_def)
qed

lemma length_filter_pos: "i < length xs \<Longrightarrow> P (xs ! i) \<Longrightarrow> 0 < length (filter P xs)"
  by (auto simp: length_greater_0_conv filter_empty_conv)

lemma length_filter_remove_nth:
  "i < length xs \<Longrightarrow>
   length (filter P (remove_nth i xs)) = length (filter P xs) - (if P (xs ! i) then 1 else 0)"
proof (induction xs arbitrary: i)
  case Nil
  then show ?case by simp
next
  case (Cons x xs)
  show ?case
  proof (cases i)
    case 0
    then show ?thesis by (simp add: remove_nth_def)
  next
    case (Suc j)
    then have j: "j < length xs" using Cons.prems by simp
    have "P (xs ! j) \<Longrightarrow> 0 < length (filter P xs)"
      using j by (rule length_filter_pos)
    with Cons.IH [OF j] show ?thesis
      using Suc by (auto simp: remove_nth_def)
  qed
qed

lemma set_remove_nth: "set (remove_nth i xs) \<subseteq> set xs"
  by (auto simp: remove_nth_def dest: in_set_takeD in_set_dropD)

lemma coherent_dirI:
  assumes "pending d s \<le> 1"
    and "pending d s = 1 \<Longrightarrow> map_of (pages s) (adjacent d lo hi) = None"
    and "\<And>pg. (d, pg) \<in> set (inflight s) \<Longrightarrow>
           page pg = adjacent d lo hi \<and> search_page (url pg) = Some (page pg)
           \<and> safe_page (adjacent d lo hi)"
    and "\<And>r. slot d s = Some r \<Longrightarrow>
           getGridForPage (adjacent d lo hi) s = None
           \<and> (\<exists>pg. find (\<lambda>w. fst w = r) (suspended s) = Some (r, d, pg)
                 \<and> page pg = adjacent d lo hi)"
  shows "coherent_dir d lo hi s"
  using assms unfolding coherent_dir_def by blast

lemma coherent_dirD:
  assumes "coherent_dir d lo hi s"
  shows "pending d s \<le> 1"
    and "pending d s = 1 \<Longrightarrow> map_of (pages s) (adjacent d lo hi) = None"
    and "\<And>pg. (d, pg) \<in> set (inflight s) \<Longrightarrow>
           page pg = adjacent d lo hi \<and> search_page (url pg) = Some (page pg)
           \<and> safe_page (adjacent d lo hi)"
    and "\<And>r. slot d s = Some r \<Longrightarrow>
           getGridForPage (adjacent d lo hi) s = None
           \<and> (\<exists>pg. find (\<lambda>w. fst w = r) (suspended s) = Some (r, d, pg)
                 \<and> page pg = adjacent d lo hi)"
  using assms unfolding coherent_dir_def by blast+

lemma coherent_dir_of: "coherent lo hi s \<Longrightarrow> coherent_dir d lo hi s"
  by (cases d) (simp_all add: coherent_def)

lemma coherent_rest:
  assumes "coherent lo hi s"
    and "cards s' = cards s" "pages s' = pages s" "suspended s' = suspended s"
    and "next_render s' = next_render s"
    and "\<And>d. coherent_dir d lo hi s'"
  shows "coherent lo hi s'"
  using assms by (simp add: coherent_def grid_children_def)

text \<open>A page next to page numbers that passes the range guard is a page number.\<close>

lemma in_range_safe:
  assumes "shouldUsePage (Some pg) s" "getLastPage s = Num l" "l < 2 ^ 53"
    and "page pg = adjacent d lo hi" "page_number lo" "page_number hi"
  shows "safe_page (adjacent d lo hi)"
proof -
  from assms(1,2) have "page pg = NaN \<or> (\<exists>q. page pg = Num q \<and> 1 \<le> q \<and> q \<le> l)"
    by (simp add: shouldUsePage_iff)
  then show ?thesis
  proof (cases d)
    case Next
    then have "hi + 1 \<le> l"
      using assms(4) \<open>page pg = NaN \<or> (\<exists>q. page pg = Num q \<and> 1 \<le> q \<and> q \<le> l)\<close> by auto
    then show ?thesis
      using Next page_number_succ [OF assms(6) _ assms(3)] by (simp add: safe_page_def)
  next
    case Previous
    then have "1 \<le> lo - 1"
      using assms(4) \<open>page pg = NaN \<or> (\<exists>q. page pg = Num q \<and> 1 \<le> q \<and> q \<le> l)\<close> by auto
    then show ?thesis
      using Previous page_number_pred [OF assms(5)] by (simp add: safe_page_def)
  qed
qed

text \<open>Issuing a fetch for a direction in which none is under way.\<close>

lemma coherent_fetch_issue:
  assumes coh: "coherent lo hi s" and p0: "pending d s = 0"
    and nk: "map_of (pages s) (adjacent d lo hi) = None"
    and lp: "getLastPage s = Num l" "l < 2 ^ 53"
  shows "coherent lo hi (call_fetchPage d s)"
proof -
  obtain pg where pg: "getPage d s = Some pg" "page pg = adjacent d lo hi"
      "search_page (url pg) = Some (page pg)"
    using coherent_getPage [OF coh, of d] by auto
  have pn: "page_number lo" "page_number hi" using coh by (simp_all add: coherent_def)
  have sp: "safe_page (adjacent d lo hi)" if "shouldUsePage (Some pg) s"
    using that lp pg(2) pn by (rule in_range_safe)
  have rej: "coherent lo hi (s\<lparr>rejections := x\<rparr>)" for x
    using coh by (subst coherent_cong [of _ s]) simp_all
  have iss: "coherent lo hi (s\<lparr>requests := r, inflight := inflight s @ [(d, pg)]\<rparr>)"
    if safe: "safe_page (adjacent d lo hi)" for r
  proof (rule coherent_rest [OF coh])
    let ?t = "s\<lparr>requests := r, inflight := inflight s @ [(d, pg)]\<rparr>"
    fix d'
    note cd = coherent_dirD [OF coherent_dir_of [OF coh, of d']]
    have pe: "pending d' ?t = pending d' s + (if d' = d then 1 else 0)"
      by (simp add: pending_def)
    have sl: "slot d' ?t = slot d' s" by (simp add: slot_def)
    show "coherent_dir d' lo hi ?t"
    proof (rule coherent_dirI)
      show "pending d' ?t \<le> 1" using pe cd(1) p0 by auto
      show "map_of (pages ?t) (adjacent d' lo hi) = None" if "pending d' ?t = 1"
      proof (cases "d' = d")
        case True
        then show ?thesis using nk by simp
      next
        case False
        then show ?thesis using that pe cd(2) by simp
      qed
      show "page pg' = adjacent d' lo hi \<and> search_page (url pg') = Some (page pg')
          \<and> safe_page (adjacent d' lo hi)"
        if "(d', pg') \<in> set (inflight ?t)" for pg'
        using that cd(3) [of pg'] pg safe by auto
      show "getGridForPage (adjacent d' lo hi) ?t = None
           \<and> (\<exists>pg. find (\<lambda>w. fst w = r') (suspended ?t) = Some (r', d', pg)
                 \<and> page pg = adjacent d' lo hi)"
        if "slot d' ?t = Some r'" for r'
        using that cd(4) [of r'] sl by simp
    qed
  qed simp_all
  show ?thesis
    using pg coh rej iss sp
    by (auto simp: call_fetchPage_def fetchPage_def split: sum.splits)
qed

lemma coherent_idle:
  assumes coh: "coherent lo hi s" and i: "i < length (idle s)"
    and lp: "getLastPage s = Num l" "l < 2 ^ 53"
  shows "coherent lo hi (step server lay s (IdleCallback i))"
proof -
  define d where "d = idle s ! i"
  let ?s1 = "s\<lparr>idle := remove_nth i (idle s)\<rparr>"
  note cd = coherent_dirD [OF coherent_dir_of [OF coh]]
  have pos: "0 < length (filter (\<lambda>x. x = d) (idle s))"
    using i by (rule length_filter_pos) (simp add: d_def)
  then have "1 \<le> pending d s" unfolding pending_def by linarith
  then have p1: "pending d s = 1" using cd(1) [of d] by simp
  then have nk: "map_of (pages s) (adjacent d lo hi) = None" by (rule cd(2))
  have pd: "pending d' ?s1 = pending d' s - (if d' = d then 1 else 0)" for d'
  proof (cases "d' = d")
    case True
    define k where "k = length (filter (\<lambda>x. x = d) (idle s))"
    have kpos: "0 < k" using pos by (simp only: k_def)
    have "length (filter (\<lambda>x. x = d) (remove_nth i (idle s))) = k - 1"
      using length_filter_remove_nth [OF i, of "\<lambda>x. x = d"] by (simp add: d_def k_def)
    then have "pending d ?s1 = length (filter (\<lambda>f. fst f = d) (inflight s)) + (k - 1)"
      by (simp add: pending_def)
    moreover have "pending d s = length (filter (\<lambda>f. fst f = d) (inflight s)) + k"
      by (simp add: pending_def k_def)
    ultimately show ?thesis using True kpos by simp
  next
    case False
    have "length (filter (\<lambda>x. x = d') (remove_nth i (idle s)))
        = length (filter (\<lambda>x. x = d') (idle s))"
      using length_filter_remove_nth [OF i, of "\<lambda>x. x = d'"] False by (simp add: d_def)
    then show ?thesis using False by (simp add: pending_def)
  qed
  have c1: "coherent lo hi ?s1"
  proof (rule coherent_rest [OF coh])
    fix d'
    show "coherent_dir d' lo hi ?s1"
    proof (rule coherent_dirI)
      show "pending d' ?s1 \<le> 1" using pd [of d'] cd(1) [of d'] by simp
      show "map_of (pages ?s1) (adjacent d' lo hi) = None" if "pending d' ?s1 = 1"
        using that pd [of d'] p1 cd(2) [of d'] by (cases "d' = d") simp_all
      show "page pg' = adjacent d' lo hi \<and> search_page (url pg') = Some (page pg')
          \<and> safe_page (adjacent d' lo hi)"
        if "(d', pg') \<in> set (inflight ?s1)" for pg'
        using that cd(3) [of d' pg'] by simp
      show "getGridForPage (adjacent d' lo hi) ?s1 = None
           \<and> (\<exists>pg. find (\<lambda>w. fst w = r') (suspended ?s1) = Some (r', d', pg)
                 \<and> page pg = adjacent d' lo hi)"
        if "slot d' ?s1 = Some r'" for r'
        using that cd(4) [of d' r'] by simp
    qed
  qed simp_all
  have pz: "pending d ?s1 = 0" using pd [of d] p1 by simp
  have pk: "map_of (pages ?s1) (adjacent d lo hi) = None" using nk by simp
  have lp1: "getLastPage ?s1 = Num l" using lp(1) by (simp add: getLastPage_def)
  have "coherent lo hi (call_fetchPage d ?s1)"
    using c1 pz pk lp1 lp(2) by (rule coherent_fetch_issue)
  then show ?thesis using i by (simp add: d_def)
qed

lemma coherent_reject:
  assumes coh: "coherent lo hi s" and i: "i < length (inflight s)"
  shows "coherent lo hi (step server lay s (FetchReject i))"
proof -
  let ?s1 = "s\<lparr>inflight := remove_nth i (inflight s),
      rejections := rejections s @ [FetchFailed]\<rparr>"
  note cd = coherent_dirD [OF coherent_dir_of [OF coh]]
  have pd: "pending d ?s1 \<le> pending d s" for d
    using i by (simp add: pending_def length_filter_remove_nth)
  have sub: "set (inflight ?s1) \<subseteq> set (inflight s)" using set_remove_nth by simp
  have "coherent lo hi ?s1"
  proof (rule coherent_rest [OF coh])
    fix d
    show "coherent_dir d lo hi ?s1"
    proof (rule coherent_dirI)
      show "pending d ?s1 \<le> 1" using pd [of d] cd(1) [of d] by simp
      show "map_of (pages ?s1) (adjacent d lo hi) = None" if "pending d ?s1 = 1"
      proof -
        have "pending d s = 1" using that pd [of d] cd(1) [of d] by simp
        then show ?thesis using cd(2) [of d] by simp
      qed
      show "page pg' = adjacent d lo hi \<and> search_page (url pg') = Some (page pg')
          \<and> safe_page (adjacent d lo hi)"
        if "(d, pg') \<in> set (inflight ?s1)" for pg'
        using that cd(3) [of d pg'] sub by blast
      show "getGridForPage (adjacent d lo hi) ?s1 = None
           \<and> (\<exists>pg. find (\<lambda>w. fst w = r') (suspended ?s1) = Some (r', d, pg)
                 \<and> page pg = adjacent d lo hi)"
        if "slot d ?s1 = Some r'" for r'
        using that cd(4) [of d r'] by simp
    qed
  qed simp_all
  then show ?thesis using i by simp
qed

lemma find_filter_other:
  "r' \<noteq> r \<Longrightarrow>
   find (\<lambda>w. fst w = r') (filter (\<lambda>w. fst w \<noteq> r) ws) = find (\<lambda>w. fst w = r') ws"
  by (induction ws) auto

text \<open>The state in which the continuation of \<open>#fetchPage\<close> leaves the component.\<close>

lemma fetch_resolve_shape:
  assumes "i < length (inflight s)" "inflight s ! i = (d, pg)"
  shows "\<exists>s3. step server lay s (FetchResolve i)
             = (case slot d s of None \<Rightarrow> s3 | Some r \<Rightarrow> resolve_render lay r s3)
           \<and> cards s3 = cards s
           \<and> pages s3 = AList.update (page pg) (server (url pg)) (pages s)
           \<and> inflight s3 = remove_nth i (inflight s)
           \<and> idle s3 = idle s \<and> suspended s3 = suspended s
           \<and> next_render s3 = next_render s
           \<and> slot d s3 = None \<and> (\<forall>d'. d' \<noteq> d \<longrightarrow> slot d' s3 = slot d' s)
           \<and> splices s3 = splices s \<and> requests s3 = requests s"
proof (cases d)
  case Next
  let ?s3 = "s\<lparr>inflight := remove_nth i (inflight s),
      pages := AList.update (page pg) (server (url pg)) (pages s),
      resolveNextPagePromise := None\<rparr>"
  have "step server lay s (FetchResolve i)
      = (case slot d s of None \<Rightarrow> ?s3 | Some r \<Rightarrow> resolve_render lay r ?s3)"
    using assms Next by (simp add: fetchPage_resume_def slot_def Let_def split: option.splits)
  moreover have "slot d ?s3 = None" "\<forall>d'. d' \<noteq> d \<longrightarrow> slot d' ?s3 = slot d' s"
    using Next by (simp_all add: slot_def)
  ultimately show ?thesis by (intro exI [of _ ?s3]) simp
next
  case Previous
  let ?s3 = "s\<lparr>inflight := remove_nth i (inflight s),
      pages := AList.update (page pg) (server (url pg)) (pages s),
      resolvePreviousPagePromise := None\<rparr>"
  have "step server lay s (FetchResolve i)
      = (case slot d s of None \<Rightarrow> ?s3 | Some r \<Rightarrow> resolve_render lay r ?s3)"
    using assms Previous by (simp add: fetchPage_resume_def slot_def Let_def split: option.splits)
  moreover have "slot d ?s3 = None" using Previous by (simp add: slot_def)
  moreover have "slot d' ?s3 = slot d' s" if "d' \<noteq> d" for d'
    using that Previous by (cases d') (simp_all add: slot_def)
  ultimately show ?thesis by (intro exI [of _ ?s3]) simp
qed

lemma resolve_render_shape:
  assumes "find (\<lambda>w. fst w = r) (suspended s) = Some (r, d, pg)"
  shows "\<exists>s4. resolve_render lay r s = render_resume lay d pg s4
           \<and> cards s4 = cards s \<and> pages s4 = pages s \<and> inflight s4 = inflight s
           \<and> idle s4 = idle s
           \<and> suspended s4 = filter (\<lambda>w. fst w \<noteq> r) (suspended s)
           \<and> next_render s4 = next_render s \<and> (\<forall>d'. slot d' s4 = slot d' s)
           \<and> splices s4 = splices s \<and> requests s4 = requests s"
  using assms
  by (intro exI [of _ "s\<lparr>suspended := filter (\<lambda>w. fst w \<noteq> r) (suspended s)\<rparr>"])
     (simp add: resolve_render_def)

lemma coherent_after_store:
  assumes coh: "coherent lo hi s"
    and i: "i < length (inflight s)" "inflight s ! i = (d, pg)"
    and h: "wf_html (adjacent d lo hi) h"
    and t: "cards t = cards s" "pages t = AList.update (adjacent d lo hi) h (pages s)"
      "inflight t = remove_nth i (inflight s)" "idle t = idle s"
      "suspended t = suspended s" "next_render t = next_render s"
      "slot d t = None" "\<forall>d'. d' \<noteq> d \<longrightarrow> slot d' t = slot d' s"
  shows "coherent lo hi t"
proof -
  note cd = coherent_dirD [OF coherent_dir_of [OF coh]]
  have lohi: "lo \<le> hi" using coh by (simp add: coherent_def)
  note keys = coherent_keys [OF coh]
  have pn: "page_number lo" "page_number hi" using coh by (simp_all add: coherent_def)
  have k: "length (filter (\<lambda>f. fst f = d) (inflight s)) > 0"
    using i(1) by (rule length_filter_pos) (simp add: i(2))
  then have "1 \<le> pending d s" unfolding pending_def by linarith
  then have p1: "pending d s = 1" using cd(1) [of d] by simp
  have pt: "pending d' t = pending d' s - (if d' = d then 1 else 0)" for d'
  proof (cases "d' = d")
    case True
    define m where "m = length (filter (\<lambda>f. fst f = d) (inflight s))"
    have mpos: "0 < m" using k by (simp only: m_def)
    have "length (filter (\<lambda>f. fst f = d) (remove_nth i (inflight s))) = m - 1"
      using length_filter_remove_nth [OF i(1), of "\<lambda>f. fst f = d"] i(2) by (simp add: m_def)
    then have "pending d t = (m - 1) + length (filter (\<lambda>x. x = d) (idle s))"
      by (simp add: pending_def t(3,4))
    moreover have "pending d s = m + length (filter (\<lambda>x. x = d) (idle s))"
      by (simp add: pending_def m_def)
    ultimately show ?thesis using True mpos by simp
  next
    case False
    have "length (filter (\<lambda>f. fst f = d') (remove_nth i (inflight s)))
        = length (filter (\<lambda>f. fst f = d') (inflight s))"
      using length_filter_remove_nth [OF i(1), of "\<lambda>f. fst f = d'"] i(2) False by auto
    then show ?thesis using False by (simp add: pending_def t(3,4))
  qed
  have adj: "adjacent d' lo hi \<noteq> adjacent d lo hi" if "d' \<noteq> d" for d'
    using that lohi by (cases d; cases d') simp_all
  have gd: "grid_children t = grid_children s" using t(1) by (simp add: grid_children_def)
  have ggo: "getGridForPage (adjacent d' lo hi) t = getGridForPage (adjacent d' lo hi) s"
    if "d' \<noteq> d" for d'
    using adj [OF that] by (simp add: getGridForPage_def t(2) update_conv')
  have dir: "coherent_dir d' lo hi t" for d'
  proof (rule coherent_dirI)
    show "pending d' t \<le> 1" using pt [of d'] cd(1) [of d'] by simp
    show "map_of (pages t) (adjacent d' lo hi) = None" if "pending d' t = 1"
    proof (cases "d' = d")
      case True
      then show ?thesis using that pt [of d] p1 by simp
    next
      case False
      then have "pending d' s = 1" using that pt [of d'] by simp
      then show ?thesis using cd(2) [of d'] adj [OF False] by (simp add: t(2) update_conv')
    qed
    show "page pg' = adjacent d' lo hi \<and> search_page (url pg') = Some (page pg')
          \<and> safe_page (adjacent d' lo hi)"
      if "(d', pg') \<in> set (inflight t)" for pg'
      using that cd(3) [of d' pg'] set_remove_nth [of i "inflight s"] unfolding t(3) by blast
    show "getGridForPage (adjacent d' lo hi) t = None
           \<and> (\<exists>pg. find (\<lambda>w. fst w = r') (suspended t) = Some (r', d', pg)
                 \<and> page pg = adjacent d' lo hi)"
      if "slot d' t = Some r'" for r'
    proof -
      have ne: "d' \<noteq> d" using that t(7) by auto
      then have "slot d' s = Some r'" using that t(8) by simp
      then show ?thesis using cd(4) [of d' r'] ggo [OF ne] by (simp add: t(5))
    qed
  qed
  have "(d, pg) \<in> set (inflight s)" using i by (metis nth_mem)
  then have safe: "safe_page (adjacent d lo hi)" using cd(3) by blast
  have "adjacent d lo hi = Num (hi + 1) \<and> page_number (hi + 1)
      \<or> adjacent d lo hi = Num (lo - 1) \<and> page_number (lo - 1)"
    using safe by (cases d) (simp_all add: safe_page_def)
  then have nk: "\<forall>k h'. map_of (pages t) k = Some h' \<longrightarrow>
      wf_html k h' \<and> (\<exists>q. k = Num q \<and> lo - 1 \<le> q \<and> q \<le> hi + 1 \<and> page_number q)"
    using keys h lohi by (auto simp: t(2) update_conv')
  show ?thesis
    using coh dir nk t(1,5,6) gd by (simp add: coherent_def)
qed

lemma coherent_drop_waiter:
  assumes coh: "coherent lo hi t" and sl: "slot d t = None"
    and f: "find (\<lambda>w. fst w = r) (suspended t) = Some (r, d, pg)"
    and t: "cards t' = cards t" "pages t' = pages t" "inflight t' = inflight t"
      "idle t' = idle t" "suspended t' = filter (\<lambda>w. fst w \<noteq> r) (suspended t)"
      "next_render t' = next_render t" "\<forall>d'. slot d' t' = slot d' t"
  shows "coherent lo hi t'"
proof -
  note cd = coherent_dirD [OF coherent_dir_of [OF coh]]
  have gd: "grid_children t' = grid_children t" using t(1) by (simp add: grid_children_def)
  have gg: "getGridForPage p t' = getGridForPage p t" for p
    using t(2) by (rule getGridForPage_cong)
  have pt: "pending d' t' = pending d' t" for d' by (simp add: pending_def t(3,4))
  have dir: "coherent_dir d' lo hi t'" for d'
  proof (rule coherent_dirI)
    show "pending d' t' \<le> 1" using cd(1) [of d'] by (simp add: pt)
    show "map_of (pages t') (adjacent d' lo hi) = None" if "pending d' t' = 1"
      using that cd(2) [of d'] by (simp add: pt t(2))
    show "page pg' = adjacent d' lo hi \<and> search_page (url pg') = Some (page pg')
          \<and> safe_page (adjacent d' lo hi)"
      if "(d', pg') \<in> set (inflight t')" for pg'
      using that cd(3) [of d' pg'] by (simp add: t(3))
    show "getGridForPage (adjacent d' lo hi) t' = None
           \<and> (\<exists>pg. find (\<lambda>w. fst w = r') (suspended t') = Some (r', d', pg)
                 \<and> page pg = adjacent d' lo hi)"
      if "slot d' t' = Some r'" for r'
    proof -
      have s': "slot d' t = Some r'" using that t(7) by simp
      from cd(4) [OF this] obtain pg' where
        g: "getGridForPage (adjacent d' lo hi) t = None"
        and f': "find (\<lambda>w. fst w = r') (suspended t) = Some (r', d', pg')"
        and p: "page pg' = adjacent d' lo hi" by blast
      have "d' \<noteq> d" using s' sl by auto
      then have "r' \<noteq> r" using f f' by auto
      then show ?thesis using g f' p by (simp add: gg t(5) find_filter_other)
    qed
  qed
  have "\<forall>w \<in> set (suspended t'). fst w < next_render t'"
    using coh by (simp add: coherent_def t(5,6))
  then show ?thesis
    using coh dir gd t(1,2) by (simp add: coherent_def)
qed

lemma coherent_render_resume:
  assumes coh: "coherent lo hi s" and pg: "page pg = adjacent d lo hi"
  shows "\<exists>lo' hi'. coherent lo' hi' (render_resume lay d pg s)"
proof (cases "getGridForPage (adjacent d lo hi) s")
  case None
  then show ?thesis using coh pg by (auto simp: render_resume_def)
next
  case (Some items)
  show ?thesis
  proof (cases d)
    case Next
    then have "render_resume lay d pg s = renderNextPage_splice pg items s"
      using Some pg by (simp add: render_resume_def)
    then show ?thesis using coherent_splice_next [OF coh, of items pg] Some Next by auto
  next
    case Previous
    then have "render_resume lay d pg s = renderPreviousPage_splice lay pg items s"
      using Some pg by (simp add: render_resume_def)
    then show ?thesis
      using coherent_splice_previous [OF coh, of items lay pg] Some Previous by auto
  qed
qed

lemma coherent_resolve:
  assumes coh: "coherent lo hi s" and i: "i < length (inflight s)"
    and srv: "contract_server server"
  shows "\<exists>lo' hi'. coherent lo' hi' (step server lay s (FetchResolve i))"
proof -
  obtain d pg where e: "inflight s ! i = (d, pg)" by (cases "inflight s ! i")
  note cd = coherent_dirD [OF coherent_dir_of [OF coh]]
  have "(d, pg) \<in> set (inflight s)" using i e by (metis nth_mem)
  from cd(3) [OF this]
  have pg: "page pg = adjacent d lo hi" "search_page (url pg) = Some (page pg)"
    and safe: "safe_page (adjacent d lo hi)" by simp_all
  have wf: "wf_html (adjacent d lo hi) (server (url pg))"
    using srv pg by (simp add: contract_server_def)
  obtain s3 where s3: "step server lay s (FetchResolve i)
             = (case slot d s of None \<Rightarrow> s3 | Some r \<Rightarrow> resolve_render lay r s3)"
      "cards s3 = cards s"
      "pages s3 = AList.update (page pg) (server (url pg)) (pages s)"
      "inflight s3 = remove_nth i (inflight s)"
      "idle s3 = idle s" "suspended s3 = suspended s"
      "next_render s3 = next_render s"
      "slot d s3 = None" "\<forall>d'. d' \<noteq> d \<longrightarrow> slot d' s3 = slot d' s"
    using fetch_resolve_shape [OF i e, of server lay] by blast
  have c3: "coherent lo hi s3"
    using coh i e wf s3(2) s3(3) [unfolded pg(1)] s3(4-9)
    by (rule coherent_after_store)
  show ?thesis
  proof (cases "slot d s")
    case None
    then show ?thesis using s3(1) c3 by auto
  next
    case (Some r)
    from cd(4) [OF this] obtain pgw where
      f: "find (\<lambda>w. fst w = r) (suspended s) = Some (r, d, pgw)"
      and pw: "page pgw = adjacent d lo hi" by blast
    have f3: "find (\<lambda>w. fst w = r) (suspended s3) = Some (r, d, pgw)"
      using f by (simp add: s3(6))
    obtain s4 where s4: "resolve_render lay r s3 = render_resume lay d pgw s4"
        "cards s4 = cards s3" "pages s4 = pages s3" "inflight s4 = inflight s3"
        "idle s4 = idle s3"
        "suspended s4 = filter (\<lambda>w. fst w \<noteq> r) (suspended s3)"
        "next_render s4 = next_render s3" "\<forall>d'. slot d' s4 = slot d' s3"
      using resolve_render_shape [OF f3, of lay] by blast
    have c4: "coherent lo hi s4"
      using c3 s3(8) f3 s4(2-8) by (rule coherent_drop_waiter)
    show ?thesis
      using coherent_render_resume [OF c4 pw, of lay] s3(1) s4(1) Some by simp
  qed
qed

subsection \<open>Frames and image loads leave the pagination alone\<close>

lemma adaptive_frame_fields [simp]:
  "cards (adaptive_frame s) = cards s" "pages (adaptive_frame s) = pages s"
  "inflight (adaptive_frame s) = inflight s" "idle (adaptive_frame s) = idle s"
  "suspended (adaptive_frame s) = suspended s" "next_render (adaptive_frame s) = next_render s"
  "resolveNextPagePromise (adaptive_frame s) = resolveNextPagePromise s"
  "resolvePreviousPagePromise (adaptive_frame s) = resolvePreviousPagePromise s"
  "splices (adaptive_frame s) = splices s" "requests (adaptive_frame s) = requests s"
  "observing (adaptive_frame s) = observing s"
  "imageRatioSetting (adaptive_frame s) = imageRatioSetting s"
  by (simp_all add: adaptive_frame_def Let_def)

lemma applyFixedAspectRatio_fields [simp]:
  "cards (applyFixedAspectRatio s) = cards s" "pages (applyFixedAspectRatio s) = pages s"
  "inflight (applyFixedAspectRatio s) = inflight s" "idle (applyFixedAspectRatio s) = idle s"
  "suspended (applyFixedAspectRatio s) = suspended s"
  "next_render (applyFixedAspectRatio s) = next_render s"
  "resolveNextPagePromise (applyFixedAspectRatio s) = resolveNextPagePromise s"
  "resolvePreviousPagePromise (applyFixedAspectRatio s) = resolvePreviousPagePromise s"
  "splices (applyFixedAspectRatio s) = splices s" "requests (applyFixedAspectRatio s) = requests s"
  "observing (applyFixedAspectRatio s) = observing s"
  "imageRatioSetting (applyFixedAspectRatio s) = imageRatioSetting s"
  by (simp_all add: applyFixedAspectRatio_def Let_def split: option.splits)

lemma run_frame_callback_fields [simp]:
  "cards (run_frame_callback s cb) = cards s" "pages (run_frame_callback s cb) = pages s"
  "inflight (run_frame_callback s cb) = inflight s" "idle (run_frame_callback s cb) = idle s"
  "suspended (run_frame_callback s cb) = suspended s"
  "next_render (run_frame_callback s cb) = next_render s"
  "resolveNextPagePromise (run_frame_callback s cb) = resolveNextPagePromise s"
  "resolvePreviousPagePromise (run_frame_callback s cb) = resolvePreviousPagePromise s"
  "splices (run_frame_callback s cb) = splices s" "requests (run_frame_callback s cb) = requests s"
  "observing (run_frame_callback s cb) = observing s"
  "imageRatioSetting (run_frame_callback s cb) = imageRatioSetting s"
  by (cases cb; simp)+

lemma foldl_frame_fields:
  "cards (foldl run_frame_callback s cbs) = cards s
   \<and> pages (foldl run_frame_callback s cbs) = pages s
   \<and> inflight (foldl run_frame_callback s cbs) = inflight s
   \<and> idle (foldl run_frame_callback s cbs) = idle s
   \<and> suspended (foldl run_frame_callback s cbs) = suspended s
   \<and> next_render (foldl run_frame_callback s cbs) = next_render s
   \<and> resolveNextPagePromise (foldl run_frame_callback s cbs) = resolveNextPagePromise s
   \<and> resolvePreviousPagePromise (foldl run_frame_callback s cbs) = resolvePreviousPagePromise s
   \<and> splices (foldl run_frame_callback s cbs) = splices s
   \<and> requests (foldl run_frame_callback s cbs) = requests s
   \<and> observing (foldl run_frame_callback s cbs) = observing s"
  by (induction cbs arbitrary: s) simp_all

lemma animation_frame_fields [simp]:
  "cards (animation_frame s) = cards s" "pages (animation_frame s) = pages s"
  "inflight (animation_frame s) = inflight s" "idle (animation_frame s) = idle s"
  "suspended (animation_frame s) = suspended s"
  "next_render (animation_frame s) = next_render s"
  "resolveNextPagePromise (animation_frame s) = resolveNextPagePromise s"
  "resolvePreviousPagePromise (animation_frame s) = resolvePreviousPagePromise s"
  "splices (animation_frame s) = splices s" "requests (animation_frame s) = requests s"
  "observing (animation_frame s) = observing s"
  using foldl_frame_fields [of "s\<lparr>frames := []\<rparr>" "frames s"]
  by (simp_all add: animation_frame_def)

lemma image_load_fields [simp]:
  "cards (image_load i w h s) = cards s" "pages (image_load i w h s) = pages s"
  "inflight (image_load i w h s) = inflight s" "idle (image_load i w h s) = idle s"
  "suspended (image_load i w h s) = suspended s"
  "next_render (image_load i w h s) = next_render s"
  "resolveNextPagePromise (image_load i w h s) = resolveNextPagePromise s"
  "resolvePreviousPagePromise (image_load i w h s) = resolvePreviousPagePromise s"
  "splices (image_load i w h s) = splices s" "requests (image_load i w h s) = requests s"
  "observing (image_load i w h s) = observing s"
  by (simp_all add: image_load_def Let_def)

subsection \<open>No event changes the last page of the grid\<close>

lemma ref_grid_call_fetchPage [simp]: "ref_grid (call_fetchPage d s) = ref_grid s"
  by (auto simp: call_fetchPage_def fetchPage_def split: option.splits sum.splits)

lemma ref_grid_renderNextPage [simp]: "ref_grid (renderNextPage s) = ref_grid s"
  by (simp add: renderNextPage_def split: option.splits)

lemma ref_grid_renderPreviousPage [simp]: "ref_grid (renderPreviousPage lay s) = ref_grid s"
  by (simp add: renderPreviousPage_def split: option.splits)

lemma ref_grid_intersection [simp]:
  "ref_grid (intersection_callback lay entries s) = ref_grid s"
  "ref_grid (resumed_intersection_callback lay entries s) = ref_grid s"
proof -
  have "ref_grid (foldl (intersection_entry lay) s entries) = ref_grid s"
    by (induction entries arbitrary: s) (simp_all add: intersection_entry_def)
  then show "ref_grid (intersection_callback lay entries s) = ref_grid s"
    "ref_grid (resumed_intersection_callback lay entries s) = ref_grid s"
    by (simp_all add: intersection_callback_def resumed_intersection_callback_def)
qed

lemma ref_grid_resolve_render [simp]: "ref_grid (resolve_render lay r s) = ref_grid s"
  by (simp add: resolve_render_def render_resume_def split: option.splits)

lemma ref_grid_fetchPage_resume [simp]:
  "ref_grid (fetchPage_resume lay d pg h s) = ref_grid s"
  by (simp add: fetchPage_resume_def Let_def split: option.splits)

lemma ref_grid_frame_callback [simp]: "ref_grid (run_frame_callback s cb) = ref_grid s"
  by (cases cb)
     (simp_all add: adaptive_frame_def applyFixedAspectRatio_def Let_def split: option.splits)

lemma ref_grid_animation_frame [simp]: "ref_grid (animation_frame s) = ref_grid s"
proof -
  have "ref_grid (foldl run_frame_callback t cbs) = ref_grid t" for t cbs
    by (induction cbs arbitrary: t) simp_all
  then show ?thesis by (simp add: animation_frame_def)
qed

lemma ref_grid_step:
  "e \<noteq> Connect \<Longrightarrow> ref_grid (step server lay s e) = ref_grid s"
  by (cases e) (simp_all add: disconnectedCallback_def image_load_def Let_def)

lemma getLastPage_step:
  "e \<noteq> Connect \<Longrightarrow> getLastPage (step server lay s e) = getLastPage s"
  by (simp add: getLastPage_def ref_grid_step)

subsection \<open>Every event keeps the component coherent\<close>

lemma coherent_step:
  assumes coh: "\<exists>lo hi. coherent lo hi s" and srv: "contract_server server"
    and e: "e \<noteq> Connect"
    and lp: "getLastPage s = Num l" "l < 2 ^ 53"
  shows "\<exists>lo hi. coherent lo hi (step server lay s e)"
proof -
  obtain lo hi where c: "coherent lo hi s" using coh by blast
  show ?thesis
  proof (cases e)
    case Connect
    then show ?thesis using e by simp
  next
    case Disconnect
    have "coherent lo hi (disconnectedCallback s) = coherent lo hi s"
      by (rule coherent_cong) (simp_all add: disconnectedCallback_def)
    then show ?thesis using c Disconnect by auto
  next
    case (Intersect entries)
    then show ?thesis using coherent_intersection [OF coh, of lay entries] by simp
  next
    case (IntersectAfterTransition entries)
    then show ?thesis using coherent_intersection [OF coh, of lay entries] by simp
  next
    case (FetchResolve i)
    show ?thesis
    proof (cases "i < length (inflight s)")
      case True
      then show ?thesis using coherent_resolve [OF c True srv, of lay] FetchResolve by simp
    next
      case False
      then show ?thesis using coh FetchResolve by simp
    qed
  next
    case (FetchReject i)
    show ?thesis
    proof (cases "i < length (inflight s)")
      case True
      then show ?thesis using coherent_reject [OF c True, of server lay] FetchReject by auto
    next
      case False
      then show ?thesis using coh FetchReject by simp
    qed
  next
    case (IdleCallback i)
    show ?thesis
    proof (cases "i < length (idle s)")
      case True
      then show ?thesis using coherent_idle [OF c True lp, of server lay] IdleCallback by auto
    next
      case False
      then show ?thesis using coh IdleCallback by simp
    qed
  next
    case AnimationFrame
    have "coherent lo hi (animation_frame s) = coherent lo hi s"
      by (rule coherent_cong) simp_all
    then show ?thesis using c AnimationFrame by auto
  next
    case (ImageLoad i w h)
    have "coherent lo hi (image_load i w h s) = coherent lo hi s"
      by (rule coherent_cong) simp_all
    then show ?thesis using c ImageLoad by auto
  qed
qed

lemma coherent_run:
  assumes "\<exists>lo hi. coherent lo hi s" "contract_server server" "Connect \<notin> set es"
    and "getLastPage s = Num l" "l < 2 ^ 53"
  shows "\<exists>lo hi. coherent lo hi (run server lay s es)"
  using assms unfolding run_def
proof (induction es arbitrary: s)
  case Nil
  then show ?case by simp
next
  case (Cons e es)
  have e: "e \<noteq> Connect" using Cons.prems(3) by auto
  have "\<exists>lo hi. coherent lo hi (step server lay s e)"
    using Cons.prems(1,2) e Cons.prems(4,5) by (rule coherent_step)
  moreover have "getLastPage (step server lay s e) = Num l"
    using Cons.prems(4) e by (simp add: getLastPage_step)
  ultimately show ?case using Cons.IH [of "step server lay s e"] Cons.prems by simp
qed

lemma call_fetchPage_shape:
  "call_fetchPage d s = s
   \<or> (\<exists>x. call_fetchPage d s = s\<lparr>rejections := x\<rparr>)
   \<or> (\<exists>r pg. call_fetchPage d s = s\<lparr>requests := r, inflight := inflight s @ [(d, pg)]\<rparr>)"
  by (auto simp: call_fetchPage_def fetchPage_def split: option.splits sum.splits)

lemma call_fetchPage_fields [simp]:
  "cards (call_fetchPage d s) = cards s" "pages (call_fetchPage d s) = pages s"
  "idle (call_fetchPage d s) = idle s" "suspended (call_fetchPage d s) = suspended s"
  "next_render (call_fetchPage d s) = next_render s"
  "resolveNextPagePromise (call_fetchPage d s) = resolveNextPagePromise s"
  "resolvePreviousPagePromise (call_fetchPage d s) = resolvePreviousPagePromise s"
  "splices (call_fetchPage d s) = splices s"
  "observing (call_fetchPage d s) = observing s"
  using call_fetchPage_shape [of d s] by auto

lemma call_fetchPage_inflight_other:
  "d' \<noteq> d \<Longrightarrow> filter (\<lambda>f. fst f = d') (inflight (call_fetchPage d s))
     = filter (\<lambda>f. fst f = d') (inflight s)"
  using call_fetchPage_shape [of d s] by auto

lemma coherent_connect:
  assumes f: "fresh s0" and c: "cards s0 = Some cs" "cs \<noteq> []"
    and p: "data_page (hd cs) = Num lo" "data_page (last cs) = Num hi" "lo \<le> hi"
    and pn: "page_number lo" "page_number hi"
    and lp: "getLastPage s0 = Num l" "l < 2 ^ 53"
  shows "coherent lo hi (connectedCallback s0)"
proof -
  let ?s1 = "storeImageRatioSettings s0"
  have core: "cards ?s1 = Some cs" "pages ?s1 = []" "inflight ?s1 = []" "idle ?s1 = []"
    "suspended ?s1 = []" "resolveNextPagePromise ?s1 = None"
    "resolvePreviousPagePromise ?s1 = None"
    using f c by (auto simp: storeImageRatioSettings_def fresh_def split: option.splits)
  have dir: "coherent_dir d lo hi ?s1" for d
    by (rule coherent_dirI) (simp_all add: pending_def slot_def core split: if_splits)
  have c1: "coherent lo hi ?s1"
    using c p pn dir by (simp add: coherent_def grid_children_def core)
  have l1: "getLastPage ?s1 = Num l"
    using lp(1) by (simp add: getLastPage_def storeImageRatioSettings_def split: option.splits)
  let ?s2 = "call_fetchPage Next ?s1"
  have c2: "coherent lo hi ?s2"
    using c1 _ _ l1 lp(2) by (rule coherent_fetch_issue) (simp_all add: pending_def core)
  have pp: "pending Previous ?s2 = 0"
    by (simp add: pending_def call_fetchPage_inflight_other core)
  have pk: "map_of (pages ?s2) (adjacent Previous lo hi) = None" by (simp add: core)
  have l2: "getLastPage ?s2 = Num l" using l1 by (simp add: getLastPage_def)
  have c3: "coherent lo hi (call_fetchPage Previous ?s2)"
    using c2 pp pk l2 lp(2) by (rule coherent_fetch_issue)
  have "coherent lo hi (observeViewMore (call_fetchPage Previous ?s2))
      = coherent lo hi (call_fetchPage Previous ?s2)"
    by (rule coherent_cong) (simp_all add: observeViewMore_def)
  then show ?thesis using c3 by (simp add: connectedCallback_def)
qed

text \<open>
  C3, amended. A newly constructed component connects once. Its cards run from a first
  page to a last page that is not smaller, both page numbers (integers of magnitude
  below \<open>2^53\<close>); the last page of the grid is a number below \<open>2^53\<close>; and the section
  renderer keeps the contract of the markup. Then after every sequence of further
  events (intersections, also those whose loop runs after a view transition, resolved
  and rejected fetches, idle callbacks, frames, image loads, a disconnect), each
  direction has at most one fetch in flight.
\<close>

theorem one_fetch_per_direction:
  assumes "fresh s0" "cards s0 = Some cs" "cs \<noteq> []"
    and "data_page (hd cs) = Num lo" "data_page (last cs) = Num hi" "lo \<le> hi"
    and "page_number lo" "page_number hi"
    and "getLastPage s0 = Num l" "l < 2 ^ 53"
    and "contract_server server" "Connect \<notin> set es"
  shows "length (filter (\<lambda>f. fst f = d) (inflight (run server lay s0 (Connect # es)))) \<le> 1"
proof -
  have c: "coherent lo hi (connectedCallback s0)"
    using assms(1-10) by (rule coherent_connect)
  have "getLastPage (connectedCallback s0) = Num l"
    using assms(9)
    by (simp add: getLastPage_def connectedCallback_def observeViewMore_def
        storeImageRatioSettings_def split: option.splits)
  then have "\<exists>lo hi. coherent lo hi (run server lay (connectedCallback s0) es)"
    using c assms(10-12) by (intro coherent_run) auto
  then obtain lo' hi' where "coherent lo' hi' (run server lay s0 (Connect # es))"
    by (auto simp: run_def)
  then have "pending d (run server lay s0 (Connect # es)) \<le> 1"
    using coherent_dirD(1) [OF coherent_dir_of] by blast
  then show ?thesis by (simp add: pending_def)
qed

text \<open>
  C3, as the claim states it, fails. A component that is disconnected and connected
  again before its prefetches resolve has two fetches in flight in each direction.
  And when a page within the range comes back with a grid that has no cards, the next
  page stays the same: two intersections then queue two idle callbacks, which issue
  two fetches for it. The next page also stays the same at page \<open>2^53\<close>, where
  \<open>page + 1\<close> rounds to \<open>page\<close>, although the section renderer keeps the contract; and
  when the fragment of page 3 holds a card that carries page 2. When the cards carry
  no number, or the first card carries a larger page than the last, both directions
  ask for the same page: the answer to the previous fetch lets a next intersection
  append, and the idle callback issues a second next fetch while the first is
  unresolved.
\<close>

theorem two_fetches_in_flight:
  "map fst (inflight (run (\<lambda>u. Document (Some [plain_card 10 (Num 3)])) (\<lambda>cs i. 0)
      (new_component (Some (Num 5)) (Some [plain_card 1 (Num 2)]) (Some ''main'') [])
      [Connect, Disconnect, Connect]))
     = [Next, Previous, Next, Previous]
   \<and> map fst (inflight (run (\<lambda>u. Document (Some [])) (\<lambda>cs i. 0)
      (new_component (Some (Num 5)) (Some [plain_card 1 (Num 2)]) (Some ''main'') [])
      [Connect, FetchResolve 0, Intersect [(Next, True)], Intersect [(Next, True)],
       IdleCallback 0, IdleCallback 0]))
     = [Previous, Next, Next]
   \<and> map fst (inflight (run (\<lambda>u. case search_page u of
            None \<Rightarrow> EmptyString | Some p \<Rightarrow> Document (Some [plain_card 10 p])) (\<lambda>cs i. 0)
      (new_component (Some (Num 9007199254740992))
         (Some [plain_card 1 (Num 9007199254740992)]) (Some ''main'') [])
      [Connect, FetchResolve 0, Intersect [(Next, True)], Intersect [(Next, True)],
       IdleCallback 0, IdleCallback 0]))
     = [Previous, Next, Next]
   \<and> map (\<lambda>f. (fst f, page (snd f)))
       (inflight (run (\<lambda>u. Document (Some [plain_card 10 (Num 2)])) (\<lambda>cs i. 0)
      (new_component (Some (Num 5)) (Some [plain_card 1 (Num 2)]) (Some ''main'') [])
      [Connect, FetchResolve 0, Intersect [(Next, True)], Intersect [(Next, True)],
       IdleCallback 0, IdleCallback 0]))
     = [(Previous, Num 1), (Next, Num 3), (Next, Num 3)]
   \<and> map (\<lambda>f. (fst f, page (snd f)))
       (inflight (run (\<lambda>u. Document (Some [plain_card 10 NaN])) (\<lambda>cs i. 0)
      (new_component (Some (Num 5)) (Some [plain_card 1 NaN]) (Some ''main'') [])
      [Connect, FetchResolve 1, Intersect [(Next, True)], IdleCallback 0]))
     = [(Next, NaN), (Next, NaN)]
   \<and> map (\<lambda>f. (fst f, page (snd f)))
       (inflight (run (\<lambda>u. Document (Some [plain_card 10 (Num 4)])) (\<lambda>cs i. 0)
      (new_component (Some (Num 9)) (Some [plain_card 1 (Num 5), plain_card 2 (Num 3)])
         (Some ''main'') [])
      [Connect, FetchResolve 1, Intersect [(Next, True)], IdleCallback 0]))
     = [(Next, Num 4), (Next, Num 5)]"
  by code_simp

theorem one_fetch_per_direction_witness:
  "fresh (new_component (Some (Num 5)) (Some [plain_card 1 (Num 2)]) (Some ''main'') [])
   \<and> contract_server (\<lambda>u. case search_page u of
        None \<Rightarrow> EmptyString | Some p \<Rightarrow> Document (Some [plain_card 10 p]))
   \<and> length (filter (\<lambda>f. fst f = Next)
       (inflight (run (\<lambda>u. case search_page u of
            None \<Rightarrow> EmptyString | Some p \<Rightarrow> Document (Some [plain_card 10 p])) (\<lambda>cs i. 0)
          (new_component (Some (Num 5)) (Some [plain_card 1 (Num 2)]) (Some ''main'') [])
          [Connect, FetchResolve 0, Intersect [(Next, True)], Disconnect,
           IntersectAfterTransition [(Next, True)], IdleCallback 0]))) \<le> 1"
proof -
  let ?s0 = "new_component (Some (Num 5)) (Some [plain_card 1 (Num 2)]) (Some ''main'') []"
  let ?server = "\<lambda>u. case search_page u of
        None \<Rightarrow> EmptyString | Some p \<Rightarrow> Document (Some [plain_card 10 p])"
  let ?es = "[FetchResolve 0, Intersect [(Next, True)], Disconnect,
      IntersectAfterTransition [(Next, True)], IdleCallback 0]"
  have f: "fresh ?s0" by (simp add: fresh_def new_component_def)
  have c: "cards ?s0 = Some [plain_card 1 (Num 2)]" "[plain_card 1 (Num 2)] \<noteq> []"
    by (simp_all add: new_component_def)
  have p: "data_page (hd [plain_card 1 (Num 2)]) = Num 2"
    "data_page (last [plain_card 1 (Num 2)]) = Num 2" "(2 :: rat) \<le> 2"
    by (simp_all add: plain_card_def)
  have srv: "contract_server ?server"
    by (simp add: contract_server_def wf_html_def plain_card_def)
  have pn: "page_number 2" "page_number 2" by (simp_all add: page_number_def)
  have lp: "getLastPage ?s0 = Num 5" "(5 :: rat) < 2 ^ 53"
    by (simp_all add: getLastPage_def new_component_def)
  have e: "Connect \<notin> set ?es" by simp
  from one_fetch_per_direction [OF f c p pn lp srv e, of Next "\<lambda>cs i. 0"] f srv
  show ?thesis by simp
qed

section \<open>Forward-only scrolling\<close>













end
